theory Spec2Isabelle
  imports Main
begin

section \<open>Values, errors and responses\<close>

text \<open>
  Errors raised during an import run. \<open>Error m\<close> is a \<^verbatim>\<open>new Error(m)\<close> raised by the
  program itself; the other constructors are raised by the platform:
  \<open>NetworkError\<close> is what a failed \<^verbatim>\<open>fetch\<close> rejects with, \<open>TypeError\<close> a property read on
  \<^verbatim>\<open>null\<close> or a value with no string form, \<open>SyntaxError\<close> a \<^verbatim>\<open>JSON.parse\<close> failure,
  \<open>DataError\<close> a record whose key is not a valid database key, \<open>StorageError\<close> the error of
  a failed database request or transaction, \<open>InvalidStateError\<close> a second
  \<^verbatim>\<open>respondWith\<close> on one fetch event.
\<close>

datatype error =
    Error string
  | NetworkError string
  | TypeError
  | SyntaxError
  | DataError
  | StorageError string
  | InvalidStateError

text \<open>
  A JavaScript value as \<^verbatim>\<open>JSON.parse\<close> and the program build them. A number is kept as
  its decimal rendering (what \<^verbatim>\<open>String(n)\<close> gives): the program never calculates with a
  number of a payload, it only tests it for truth and prints it. An object is the list
  of its own properties in insertion order, each name at most once. (An engine lists
  integer-like names first; here the order of an object's properties only decides the
  order in which records are put.)
\<close>

datatype js =
    JUndef
  | JNull
  | JBool bool
  | JNum string
  | JStr string
  | JArr "js list"
  | JObj "(string \<times> js) list"

text \<open>
  The body of a response, as the program reads it: \<open>Blank\<close> is a text that is empty after
  trimming, \<open>Malformed\<close> a text that \<^verbatim>\<open>JSON.parse\<close> rejects (an HTML page is one), \<open>Json v\<close>
  a text that parses to \<open>v\<close>.
\<close>

datatype body = Blank | Malformed | Json js

record response =
  status :: nat
  body :: body

definition ok :: "response \<Rightarrow> bool" where
  "ok r = (200 \<le> status r \<and> status r \<le> 299)"

datatype attempt = Rejects error | Responds response

type_synonym network = "string \<Rightarrow> nat \<Rightarrow> attempt"

section \<open>The retrying fetcher\<close>

record fetched =
  outcome :: "error + response option"
  calls :: nat
  waited :: nat

text \<open>
  \<^verbatim>\<open>fetchWithRetry(url, retries)\<close>, the loop from attempt \<open>i\<close> on. \<open>net url i\<close> is what the
  \<open>i\<close>-th \<^verbatim>\<open>fetch(url)\<close> of the call does. \<open>Inr None\<close> is the promise resolving with
  \<^verbatim>\<open>undefined\<close>, when the loop runs out. \<open>calls\<close> counts the \<^verbatim>\<open>fetch\<close> calls made and
  \<open>waited\<close> adds up the delays in milliseconds.
\<close>

function fetchWithRetry_from :: "network \<Rightarrow> string \<Rightarrow> nat \<Rightarrow> nat \<Rightarrow> nat \<Rightarrow> nat \<Rightarrow> fetched" where
  "fetchWithRetry_from net url retries i c t =
     (if i < retries then
        (case net url i of
           Responds r \<Rightarrow>
             if ok r then \<lparr>outcome = Inr (Some r), calls = c + 1, waited = t\<rparr>
             else fetchWithRetry_from net url retries (i + 1) (c + 1) (t + 1000 * (i + 1))
         | Rejects e \<Rightarrow>
             if i = retries - 1 then \<lparr>outcome = Inl e, calls = c + 1, waited = t\<rparr>
             else fetchWithRetry_from net url retries (i + 1) (c + 1) (t + 1000 * (i + 1)))
      else \<lparr>outcome = Inr None, calls = c, waited = t\<rparr>)"
  by pat_completeness auto
termination
  by (relation "measure (\<lambda>(net, url, retries, i, c, t). retries - i)") auto

definition fetchWithRetry :: "network \<Rightarrow> string \<Rightarrow> nat \<Rightarrow> fetched" where
  "fetchWithRetry net url retries = fetchWithRetry_from net url retries 0 0 0"

definition attempt_failed :: "attempt \<Rightarrow> bool" where
  "attempt_failed a = (case a of Rejects e \<Rightarrow> True | Responds r \<Rightarrow> \<not> ok r)"

section \<open>JavaScript operations on values\<close>

text \<open>Truthiness, as \<^verbatim>\<open>!v\<close>, \<^verbatim>\<open>a || b\<close> and \<^verbatim>\<open>a && b\<close> test it.\<close>

fun truthy :: "js \<Rightarrow> bool" where
  "truthy JUndef = False"
| "truthy JNull = False"
| "truthy (JBool b) = b"
| "truthy (JNum s) = (s \<noteq> ''0'' \<and> s \<noteq> ''NaN'')"
| "truthy (JStr s) = (s \<noteq> [])"
| "truthy (JArr xs) = True"
| "truthy (JObj ps) = True"

definition js_or :: "js \<Rightarrow> js \<Rightarrow> js" where
  "js_or a b = (if truthy a then a else b)"

definition nullish :: "js \<Rightarrow> bool" where
  "nullish v = (v = JNull \<or> v = JUndef)"

text \<open>\<^verbatim>\<open>typeof v === 'object'\<close> and \<^verbatim>\<open>Array.isArray(v)\<close>.\<close>

fun typeof_object :: "js \<Rightarrow> bool" where
  "typeof_object JNull = True"
| "typeof_object (JArr xs) = True"
| "typeof_object (JObj ps) = True"
| "typeof_object v = False"

fun isArray :: "js \<Rightarrow> bool" where
  "isArray (JArr xs) = True"
| "isArray v = False"

text \<open>
  \<^verbatim>\<open>v.name\<close> for a value that is neither \<^verbatim>\<open>null\<close> nor \<^verbatim>\<open>undefined\<close> (there the read
  raises a TypeError, which every caller below checks first). The names the program reads
  are data fields (\<^verbatim>\<open>id\<close>, \<^verbatim>\<open>items\<close>, \<^verbatim>\<open>data\<close>, ...), none of them an index, \<^verbatim>\<open>length\<close> or
  a built-in method, so a string, number, boolean or array has none of them.
\<close>

fun field :: "js \<Rightarrow> string \<Rightarrow> js" where
  "field (JObj ps) k = (case map_of ps k of Some v \<Rightarrow> v | None \<Rightarrow> JUndef)"
| "field v k = JUndef"

text \<open>
  \<^verbatim>\<open>obj[name] = v\<close> on an ordinary object: an existing property keeps its place, a new one
  goes last. The name \<^verbatim>\<open>__proto__\<close> is the prototype accessor: assigning to it creates no
  own property.
\<close>

fun upsert :: "'k \<Rightarrow> 'v \<Rightarrow> ('k \<times> 'v) list \<Rightarrow> ('k \<times> 'v) list" where
  "upsert k v [] = [(k, v)]"
| "upsert k v ((k', v') # ps) = (if k' = k then (k, v) # ps else (k', v') # upsert k v ps)"

definition set_prop :: "string \<Rightarrow> js \<Rightarrow> (string \<times> js) list \<Rightarrow> (string \<times> js) list" where
  "set_prop name v ps = (if name = ''__proto__'' then ps else upsert name v ps)"

text \<open>
  The string form of a value, as a template literal and a computed property name take it;
  \<open>None\<close> is the TypeError of a value with no primitive form: an object whose own
  \<^verbatim>\<open>toString\<close> property (never callable in parsed JSON) hides the inherited method.
  An array is joined with commas, \<^verbatim>\<open>null\<close> and \<^verbatim>\<open>undefined\<close> elements left empty.
\<close>

fun to_string :: "js \<Rightarrow> string option" and join_elems :: "js list \<Rightarrow> string option" where
  "to_string JUndef = Some ''undefined''"
| "to_string JNull = Some ''null''"
| "to_string (JBool b) = Some (if b then ''true'' else ''false'')"
| "to_string (JNum s) = Some s"
| "to_string (JStr s) = Some s"
| "to_string (JArr xs) = join_elems xs"
| "to_string (JObj ps) = (if ''toString'' \<in> set (map fst ps) then None else Some ''[object Object]'')"
| "join_elems [] = Some []"
| "join_elems (x # xs) =
     (case (if x = JNull \<or> x = JUndef then Some [] else to_string x) of
        None \<Rightarrow> None
      | Some s \<Rightarrow>
          (if xs = [] then Some s
           else (case join_elems xs of None \<Rightarrow> None | Some t \<Rightarrow> Some (s @ '','' @ t))))"

text \<open>Decimal rendering of a natural number (indices, counts, HTTP statuses).\<close>

function show_nat :: "nat \<Rightarrow> string" where
  "show_nat n = (if n < 10 then [''0123456789'' ! n] else show_nat (n div 10) @ [''0123456789'' ! (n mod 10)])"
  by pat_completeness auto
termination
  by (relation "measure (\<lambda>n. n)") auto

text \<open>\<^verbatim>\<open>${response?.status || 'unknown'}\<close> in the messages of the import run.\<close>

definition status_text :: "response option \<Rightarrow> string" where
  "status_text ro =
     (case ro of None \<Rightarrow> ''unknown''
      | Some r \<Rightarrow> if status r = 0 then ''unknown'' else show_nat (status r))"

section \<open>The persistent store\<close>

text \<open>
  An object store is the list of its records with their keys, a key at most once;
  \<open>upsert\<close> is \<^verbatim>\<open>put\<close>. The list is in the order of the first put of each key, where the
  engine orders by key; what a store holds is the mapping from keys to records
  (\<open>contents\<close> below). The database has the three stores that \<^verbatim>\<open>onupgradeneeded\<close> creates.
  A valid key is a string, a number or an array of valid keys.
\<close>

type_synonym store = "(js \<times> js) list"

record database =
  workflows :: store
  items :: store
  appInfo :: store

fun valid_key :: "js \<Rightarrow> bool" where
  "valid_key (JStr s) = True"
| "valid_key (JNum s) = (s \<noteq> ''NaN'')"
| "valid_key (JArr xs) = (\<forall>x \<in> set xs. valid_key x)"
| "valid_key v = False"

text \<open>
  The fields of \<^verbatim>\<open>DBManager\<close>. \<open>db = None\<close> is \<^verbatim>\<open>this.db === null\<close>; \<open>Some d\<close> is an open
  connection to a database whose content is \<open>d\<close>.
\<close>

record dbmanager =
  ready :: bool
  db :: "database option"
  itemIndex :: js

definition new_DBManager :: dbmanager where
  "new_DBManager = \<lparr>ready = False, db = None, itemIndex = JNull\<rparr>"

text \<open>
  What the program's surroundings do during one run: \<open>fetch url i\<close> is the \<open>i\<close>-th attempt
  of a \<^verbatim>\<open>fetchWithRetry\<close> call on \<open>url\<close> (two calls on one url meet the same attempts);
  \<open>clock\<close> is what \<^verbatim>\<open>new Date().toISOString()\<close> reads, one value for the run; \<open>open_error\<close> is
  the error of \<^verbatim>\<open>indexedDB.open\<close>, if it fails; \<open>disk\<close> is the content of the database when
  it is opened; the three fault fields give the message of the storage engine's error
  when it refuses a clear, a put of a key into a store, or a read of a store.
\<close>

record world =
  fetch :: network
  clock :: string
  open_error :: "error option"
  disk :: database
  clear_fault :: "string option"
  put_fault :: "string \<Rightarrow> js \<Rightarrow> string option"
  read_fault :: "string \<Rightarrow> string option"

definition NotReady :: error where
  "NotReady = Error ''Database not initialized''"

text \<open>
  \<^verbatim>\<open>initDB\<close>. \<open>Inl e\<close> is the returned promise rejecting with \<open>e\<close>. The \<^verbatim>\<open>catch\<close> that returns
  \<^verbatim>\<open>false\<close> is not reachable: \<^verbatim>\<open>indexedDB.open\<close> runs inside the promise's executor, where
  an exception rejects the promise.
\<close>

definition initDB :: "world \<Rightarrow> dbmanager \<Rightarrow> (error + bool) \<times> dbmanager" where
  "initDB w m =
     (if ready m then (Inr True, m)
      else (case open_error w of
              Some e \<Rightarrow> (Inl e, m)
            | None \<Rightarrow> (Inr True, m\<lparr>db := Some (disk w), ready := True\<rparr>)))"

definition clearDatabase :: "world \<Rightarrow> dbmanager \<Rightarrow> (error + bool) \<times> dbmanager" where
  "clearDatabase w m =
     (if \<not> ready m then (Inl NotReady, m)
      else (case db m of
              None \<Rightarrow> (Inl TypeError, m)
            | Some d \<Rightarrow>
                (case clear_fault w of
                   Some msg \<Rightarrow> (Inl (StorageError msg), m)
                 | None \<Rightarrow> (Inr True, m\<lparr>db := Some \<lparr>workflows = [], items = [], appInfo = []\<rparr>\<rparr>))))"

text \<open>
  \<^verbatim>\<open>getWorkflows\<close> and \<^verbatim>\<open>getWorkflowItems\<close> return the records in the order of the store
  list, that is of the first put of each key, where the engine returns them in the order
  of the keys: the results stand for the records returned, not for their order.
\<close>

definition getWorkflows :: "world \<Rightarrow> dbmanager \<Rightarrow> error + js list" where
  "getWorkflows w m =
     (if \<not> ready m then Inl NotReady
      else (case db m of
              None \<Rightarrow> Inl TypeError
            | Some d \<Rightarrow>
                (case read_fault w ''workflows'' of
                   Some msg \<Rightarrow> Inl (StorageError msg)
                 | None \<Rightarrow> Inr (map snd (workflows d)))))"

text \<open>
  \<^verbatim>\<open>index.getAll(workflowId)\<close>: without a query (\<^verbatim>\<open>undefined\<close> or \<^verbatim>\<open>null\<close>) every record of
  the index, with an invalid key a DataError (an engine that reads an object argument as
  the options of \<^verbatim>\<open>getAll\<close> returns every record of the index there instead). The index
  holds the records whose \<^verbatim>\<open>workflowId\<close> is a valid key.
\<close>

definition getWorkflowItems :: "world \<Rightarrow> js \<Rightarrow> dbmanager \<Rightarrow> error + js list" where
  "getWorkflowItems w workflowId m =
     (if \<not> ready m then Inl NotReady
      else (case db m of
              None \<Rightarrow> Inl TypeError
            | Some d \<Rightarrow>
                if \<not> nullish workflowId \<and> \<not> valid_key workflowId then Inl DataError
                else (case read_fault w ''items'' of
                        Some msg \<Rightarrow> Inl (StorageError msg)
                      | None \<Rightarrow>
                          Inr (filter (\<lambda>r. valid_key (field r ''workflowId'') \<and>
                                           (nullish workflowId \<or> field r ''workflowId'' = workflowId))
                                 (map snd (items d))))))"

text \<open>\<^verbatim>\<open>getResult\<close>: the record under the key, \<^verbatim>\<open>undefined\<close> when there is none.\<close>

definition getResult :: "world \<Rightarrow> js \<Rightarrow> dbmanager \<Rightarrow> error + js" where
  "getResult w uniqueId m =
     (if \<not> ready m then Inl NotReady
      else (case db m of
              None \<Rightarrow> Inl TypeError
            | Some d \<Rightarrow>
                if \<not> valid_key uniqueId then Inl DataError
                else (case read_fault w ''items'' of
                        Some msg \<Rightarrow> Inl (StorageError msg)
                      | None \<Rightarrow>
                          Inr (case map_of (items d) uniqueId of Some r \<Rightarrow> r | None \<Rightarrow> JUndef))))"

section \<open>The write operations\<close>

text \<open>
  \<open>first_fault refuses ks\<close> is the position and the error message of the first put request
  that the storage engine refuses, the requests of a transaction being served in order.
\<close>

fun first_fault :: "(js \<Rightarrow> string option) \<Rightarrow> js list \<Rightarrow> (nat \<times> string) option" where
  "first_fault refuses [] = None"
| "first_fault refuses (k # ks) =
     (case refuses k of
        Some msg \<Rightarrow> Some (0, msg)
      | None \<Rightarrow> (case first_fault refuses ks of Some (j, msg) \<Rightarrow> Some (Suc j, msg) | None \<Rightarrow> None))"

definition put_all :: "(js \<times> js) list \<Rightarrow> store \<Rightarrow> store" where
  "put_all krs st = foldl (\<lambda>st (k, r). upsert k r st) st krs"

definition appInfo_record :: "world \<Rightarrow> js \<Rightarrow> js" where
  "appInfo_record w a =
     (let info = js_or (field a ''appInfo'') a in
      JObj [(''key'', JStr ''appInfo''),
            (''version'', js_or (field info ''version'') (JStr ''1.0.0'')),
            (''exportDate'', js_or (field info ''exportDate'') (JStr (clock w))),
            (''name'', js_or (field info ''name'') (js_or (field info ''title'') (JStr ''HydroBlox Application''))),
            (''title'', field info ''title''),
            (''description'', field info ''description''),
            (''layout'', field info ''layout''),
            (''workflowCount'', field info ''workflowCount'')])"

text \<open>
  \<^verbatim>\<open>storeAppInfo\<close>. There is no readiness check: on \<^verbatim>\<open>this.db === null\<close> the call
  \<^verbatim>\<open>this.db.transaction\<close> raises a TypeError inside the executor, as does
  \<^verbatim>\<open>appInfo.appInfo\<close> on \<^verbatim>\<open>null\<close>.
\<close>

definition storeAppInfo :: "world \<Rightarrow> js \<Rightarrow> dbmanager \<Rightarrow> (error + unit) \<times> dbmanager" where
  "storeAppInfo w a m =
     (case db m of
        None \<Rightarrow> (Inl TypeError, m)
      | Some d \<Rightarrow>
          if nullish a then (Inl TypeError, m)
          else (case put_fault w ''appInfo'' (JStr ''appInfo'') of
                  Some msg \<Rightarrow> (Inl (StorageError msg), m)
                | None \<Rightarrow>
                    (Inr (), m\<lparr>db := Some (d\<lparr>appInfo :=
                                 upsert (JStr ''appInfo'') (appInfo_record w a) (appInfo d)\<rparr>)\<rparr>)))"

text \<open>The copy of an embedded item that a stored workflow keeps; \<open>None\<close> drops it.\<close>

definition item_summary :: "js \<Rightarrow> js option" where
  "item_summary item =
     (if \<not> truthy item \<or> \<not> typeof_object item then None
      else Some (JObj [(''uniqueId'', field item ''uniqueId''),
                       (''name'', field item ''name''),
                       (''itemName'', field item ''itemName''),
                       (''type'', field item ''type''),
                       (''parameters'', js_or (field item ''parameters'') (JObj [])),
                       (''arguments'', js_or (field item ''arguments'') (JObj [])),
                       (''data'', js_or (field item ''data'') (JArr [])),
                       (''settings'', js_or (field item ''settings'') (JObj [])),
                       (''status'', field item ''status''),
                       (''results'', js_or (field item ''results'') JNull)]))"

definition workflow_record :: "string \<Rightarrow> js \<Rightarrow> js" where
  "workflow_record workflowId workflow =
     JObj [(''id'', JStr workflowId),
           (''name'', js_or (field workflow ''name'') (JStr (''Workflow '' @ workflowId))),
           (''items'', JArr (List.map_filter item_summary
                               (case field workflow ''items'' of JArr xs \<Rightarrow> xs | _ \<Rightarrow> []))),
           (''connections'', js_or (field workflow ''connections'') (JArr [])),
           (''created'', field workflow ''created'')]"

text \<open>The put requests of \<^verbatim>\<open>storeWorkflows\<close>: one for each entry that is an object.\<close>

definition workflow_puts :: "(string \<times> js) list \<Rightarrow> (js \<times> js) list" where
  "workflow_puts entries =
     List.map_filter (\<lambda>(workflowId, workflow).
        if \<not> truthy workflow \<or> \<not> typeof_object workflow then None
        else Some (JStr workflowId, workflow_record workflowId workflow)) entries"

text \<open>
  \<^verbatim>\<open>storeWorkflows\<close>. A refused put rejects the promise, and its error event, which no
  handler cancels, aborts the transaction: nothing of it is kept.
\<close>

definition storeWorkflows :: "world \<Rightarrow> js \<Rightarrow> dbmanager \<Rightarrow> (error + unit) \<times> dbmanager" where
  "storeWorkflows w wfs m =
     (case db m of
        None \<Rightarrow> (Inl TypeError, m)
      | Some d \<Rightarrow>
          (case wfs of
             JObj entries \<Rightarrow>
               (case first_fault (put_fault w ''workflows'') (map fst (workflow_puts entries)) of
                  Some (j, msg) \<Rightarrow> (Inl (StorageError msg), m)
                | None \<Rightarrow>
                    (Inr (), m\<lparr>db := Some (d\<lparr>workflows :=
                                 put_all (workflow_puts entries) (workflows d)\<rparr>)\<rparr>))
           | _ \<Rightarrow> (Inl (Error ''Invalid workflows structure: expected object with workflow IDs as keys''), m)))"

record tally =
  succeeded :: nat
  failed :: nat

definition item_record :: "world \<Rightarrow> js \<Rightarrow> js \<Rightarrow> js" where
  "item_record w itemMeta itemData =
     JObj [(''uniqueId'', field itemMeta ''id''),
           (''workflowId'', field itemMeta ''workflowId''),
           (''itemName'', field itemMeta ''itemName''),
           (''timestamp'', js_or (field itemMeta ''timestamp'') (JStr (clock w))),
           (''data'', if field itemData ''data'' \<noteq> JUndef then field itemData ''data'' else itemData),
           (''settings'', js_or (field itemData ''settings'') (JObj [])),
           (''name'', field itemData ''name''),
           (''type'', field itemData ''type'')]"

text \<open>
  One callback of \<^verbatim>\<open>itemBatch.map\<close>: \<open>Inr None\<close> is the \<^verbatim>\<open>null\<close> of a failed load (counted in
  \<^verbatim>\<open>loadFailedCount\<close>), \<open>Inr (Some r)\<close> the record to store. \<open>Inl\<close> is the callback's promise
  rejecting: when the id has no string form, the template literal of the url raises, and
  so does the one of the \<^verbatim>\<open>catch\<close> block's message.
\<close>

definition loadItem :: "world \<Rightarrow> js \<Rightarrow> error + js option" where
  "loadItem w itemMeta =
     (if \<not> truthy itemMeta \<or> \<not> truthy (field itemMeta ''id'') then Inr None
      else (case to_string (field itemMeta ''id'') of
              None \<Rightarrow> Inl TypeError
            | Some idText \<Rightarrow>
                (case outcome (fetchWithRetry (fetch w) (''./data/items/'' @ idText @ ''.json'') 2) of
                   Inl e \<Rightarrow> Inr None
                 | Inr None \<Rightarrow> Inr None
                 | Inr (Some itemResponse) \<Rightarrow>
                     if \<not> ok itemResponse then Inr None
                     else (case body itemResponse of
                             Blank \<Rightarrow> Inr None
                           | Malformed \<Rightarrow> Inr None
                           | Json itemData \<Rightarrow>
                               if \<not> truthy itemData \<or> \<not> typeof_object itemData then Inr None
                               else Inr (Some (item_record w itemMeta itemData))))))"

fun raised :: "(error + 'a) list \<Rightarrow> error option" where
  "raised [] = None"
| "raised (Inl e # xs) = Some e"
| "raised (Inr x # xs) = raised xs"

definition keyed :: "js list \<Rightarrow> (js \<times> js) list" where
  "keyed rs = map (\<lambda>r. (field r ''uniqueId'', r)) rs"

text \<open>
  The transaction of \<^verbatim>\<open>storeItemBatch\<close> on the loaded records: what the promise settles
  to, and the puts that the transaction commits. \<^verbatim>\<open>itemStore.put\<close> raises a DataError at
  the first record whose key is not valid: the promise rejects, and the requests issued
  before it still commit. A request that the engine refuses aborts the transaction, so
  nothing is committed; the promise has been resolved with the tallies by then only when
  the refused request was the last one (\<^verbatim>\<open>checkDone\<close> runs in the request's handler, before
  the event reaches \<^verbatim>\<open>transaction.onerror\<close>).
\<close>

definition put_items :: "world \<Rightarrow> js list \<Rightarrow> nat \<Rightarrow> (error + tally) \<times> (js \<times> js) list" where
  "put_items w validItems loadFailedCount =
     (let issued = takeWhile (\<lambda>item. valid_key (field item ''uniqueId'')) validItems in
      case first_fault (put_fault w ''items'') (map fst (keyed issued)) of
        Some (j, msg) \<Rightarrow>
          (if length issued < length validItems then Inl DataError
           else if Suc j = length validItems
                then Inr \<lparr>succeeded = j, failed = loadFailedCount + 1\<rparr>
           else Inl (Error (''Transaction failed: '' @ msg)), [])
      | None \<Rightarrow>
          (if length issued < length validItems then Inl DataError
           else Inr \<lparr>succeeded = length validItems, failed = loadFailedCount\<rparr>,
           keyed issued))"

definition storeItemBatch :: "world \<Rightarrow> js list \<Rightarrow> dbmanager \<Rightarrow> (error + tally) \<times> dbmanager" where
  "storeItemBatch w itemBatch m =
     (let loads = map (loadItem w) itemBatch in
      case raised loads of
        Some e \<Rightarrow> (Inl e, m)
      | None \<Rightarrow>
          (let validItems = List.map_filter (\<lambda>x. case x of Inr (Some r) \<Rightarrow> Some r | _ \<Rightarrow> None) loads;
               loadFailedCount = length (filter (\<lambda>x. x = Inr None) loads) in
           case db m of
             None \<Rightarrow> (Inl TypeError, m)
           | Some d \<Rightarrow>
               if validItems = [] then (Inr \<lparr>succeeded = 0, failed = loadFailedCount\<rparr>, m)
               else (case put_items w validItems loadFailedCount of
                       (res, committed) \<Rightarrow>
                         (res, m\<lparr>db := Some (d\<lparr>items := put_all committed (items d)\<rparr>)\<rparr>))))"

section \<open>The import run\<close>

text \<open>
  An entry of the run's \<^verbatim>\<open>errors\<close> list. Each stands for the message the program builds:
  \<open>ClearFailed e\<close> for \<^verbatim>\<open>Warning: Failed to clear database: ...\<close>, \<open>IndexFailed e\<close> for
  \<^verbatim>\<open>Failed to load item index: ...\<close>, \<open>AppInfoFailed e\<close> for \<^verbatim>\<open>Failed to load app info: ...\<close>,
  \<open>WorkflowsFailed e\<close> for \<^verbatim>\<open>Failed to load workflows: ...\<close>, \<open>BatchFailed i j e\<close> for
  \<^verbatim>\<open>Batch i-j failed: ...\<close> and \<open>ItemsFailed n\<close> for \<^verbatim>\<open>Warning: n items failed to load\<close>,
  with the message of \<open>e\<close> in place of the dots. The progress callback and the console
  only receive text and are left out.
\<close>

datatype warning =
    ClearFailed error
  | IndexFailed error
  | AppInfoFailed error
  | WorkflowsFailed error
  | BatchFailed nat nat error
  | ItemsFailed nat

definition clear_step :: "world \<Rightarrow> dbmanager \<Rightarrow> warning list \<Rightarrow> dbmanager \<times> warning list" where
  "clear_step w m errs =
     (case clearDatabase w m of
        (Inl clearError, m') \<Rightarrow> (m', errs @ [ClearFailed clearError])
      | (Inr done, m') \<Rightarrow> (m', errs))"

definition fetch_index :: "world \<Rightarrow> error + js list" where
  "fetch_index w =
     (case outcome (fetchWithRetry (fetch w) ''./data/item-index.json'' 3) of
        Inl e \<Rightarrow> Inl e
      | Inr None \<Rightarrow> Inl (Error (''Failed to fetch item index: HTTP '' @ status_text None))
      | Inr (Some r) \<Rightarrow>
          if \<not> ok r then Inl (Error (''Failed to fetch item index: HTTP '' @ status_text (Some r)))
          else (case body r of
                  Blank \<Rightarrow> Inl (Error ''Item index file is empty'')
                | Malformed \<Rightarrow> Inl SyntaxError
                | Json v \<Rightarrow>
                    (case v of
                       JArr xs \<Rightarrow> Inr xs
                     | _ \<Rightarrow> Inl (Error ''Item index is not an array''))))"

definition index_step :: "world \<Rightarrow> dbmanager \<Rightarrow> warning list \<Rightarrow> dbmanager \<times> warning list" where
  "index_step w m errs =
     (case fetch_index w of
        Inl fetchError \<Rightarrow> (m\<lparr>itemIndex := JArr []\<rparr>, errs @ [IndexFailed fetchError])
      | Inr xs \<Rightarrow> (m\<lparr>itemIndex := JArr xs\<rparr>, errs))"

definition fetch_appInfo :: "world \<Rightarrow> error + js" where
  "fetch_appInfo w =
     (case outcome (fetchWithRetry (fetch w) ''./data/app-info.json'' 3) of
        Inl e \<Rightarrow> Inl e
      | Inr None \<Rightarrow> Inl (Error (''Failed to fetch: HTTP '' @ status_text None))
      | Inr (Some r) \<Rightarrow>
          if \<not> ok r then Inl (Error (''Failed to fetch: HTTP '' @ status_text (Some r)))
          else (case body r of
                  Blank \<Rightarrow> Inl (Error ''App info file is empty'')
                | Malformed \<Rightarrow> Inl SyntaxError
                | Json v \<Rightarrow> Inr v))"

definition fallback_appInfo :: "world \<Rightarrow> js" where
  "fallback_appInfo w =
     JObj [(''appInfo'', JObj [(''version'', JStr ''1.0.0''),
                               (''exportDate'', JStr (clock w)),
                               (''name'', JStr ''HydroBlox'')])]"

text \<open>
  The app-info block. Its \<^verbatim>\<open>catch\<close> records the warning and then stores the fallback
  record with an \<^verbatim>\<open>await\<close> of its own: \<open>Inl\<close> is that call rejecting, which leaves the
  block, with the \<^verbatim>\<open>errors\<close> list as it is then.
\<close>

definition appinfo_step ::
  "world \<Rightarrow> dbmanager \<Rightarrow> warning list \<Rightarrow> ((error \<times> warning list) + warning list) \<times> dbmanager" where
  "appinfo_step w m errs =
     (case (case fetch_appInfo w of
              Inl e \<Rightarrow> (Inl e, m)
            | Inr a \<Rightarrow> storeAppInfo w a m) of
        (Inr done, m') \<Rightarrow> (Inr errs, m')
      | (Inl appInfoError, m') \<Rightarrow>
          (case storeAppInfo w (fallback_appInfo w) m' of
             (Inr done, m'') \<Rightarrow> (Inr (errs @ [AppInfoFailed appInfoError]), m'')
           | (Inl e, m'') \<Rightarrow> (Inl (e, errs @ [AppInfoFailed appInfoError]), m'')))"

text \<open>
  The id under which an array entry is kept, as a property name:
  \<^verbatim>\<open>workflow.id || workflow.workflowId || `workflow-${index}`\<close>; and the test that an entry
  is a workflow: \<^verbatim>\<open>workflow.items && Array.isArray(workflow.items)\<close>.
\<close>

definition workflowId_of :: "nat \<Rightarrow> js \<Rightarrow> string option" where
  "workflowId_of index workflow =
     to_string (js_or (field workflow ''id'')
                  (js_or (field workflow ''workflowId'') (JStr (''workflow-'' @ show_nat index))))"

definition is_workflow :: "js \<Rightarrow> bool" where
  "is_workflow workflow = (truthy (field workflow ''items'') \<and> isArray (field workflow ''items''))"

text \<open>
  The \<^verbatim>\<open>forEach\<close> that turns an array of workflows into an object. \<^verbatim>\<open>workflow.id\<close> on a
  \<^verbatim>\<open>null\<close> entry raises; the id is turned into a string in both branches, as a property
  name in the first and in the message of the warning in the second.
\<close>

fun normalize_array :: "nat \<Rightarrow> js list \<Rightarrow> (string \<times> js) list \<Rightarrow> error + (string \<times> js) list" where
  "normalize_array index [] normalizedWorkflows = Inr normalizedWorkflows"
| "normalize_array index (workflow # rest) normalizedWorkflows =
     (if nullish workflow then Inl TypeError
      else (case workflowId_of index workflow of
              None \<Rightarrow> Inl TypeError
            | Some workflowId \<Rightarrow>
                if is_workflow workflow
                then normalize_array (index + 1) rest (set_prop workflowId workflow normalizedWorkflows)
                else normalize_array (index + 1) rest normalizedWorkflows))"

text \<open>The loop over \<^verbatim>\<open>Object.entries(workflows)\<close> that keeps the workflows.\<close>

fun validate_entries :: "(string \<times> js) list \<Rightarrow> (string \<times> js) list \<Rightarrow> error + (string \<times> js) list" where
  "validate_entries [] validatedWorkflows = Inr validatedWorkflows"
| "validate_entries ((workflowId, workflow) # rest) validatedWorkflows =
     (if nullish workflow then Inl TypeError
      else if is_workflow workflow
           then validate_entries rest (set_prop workflowId workflow validatedWorkflows)
      else if truthy (field workflow ''uniqueId'') \<or> truthy (field workflow ''itemName'')
           then validate_entries rest validatedWorkflows
      else validate_entries rest validatedWorkflows)"

definition normalize_workflows :: "js \<Rightarrow> error + (string \<times> js) list" where
  "normalize_workflows v =
     (if \<not> truthy v \<or> \<not> typeof_object v then Inl (Error ''Invalid workflows format'')
      else (case (case v of
                    JArr xs \<Rightarrow> normalize_array 0 xs []
                  | JObj ps \<Rightarrow> Inr ps
                  | _ \<Rightarrow> Inr []) of
              Inl e \<Rightarrow> Inl e
            | Inr entries \<Rightarrow> validate_entries entries []))"

definition load_workflows :: "world \<Rightarrow> dbmanager \<Rightarrow> (error + unit) \<times> dbmanager" where
  "load_workflows w m =
     (case outcome (fetchWithRetry (fetch w) ''./data/workflows.json'' 3) of
        Inl e \<Rightarrow> (Inl e, m)
      | Inr None \<Rightarrow> (Inl (Error (''Failed to fetch: HTTP '' @ status_text None)), m)
      | Inr (Some r) \<Rightarrow>
          if \<not> ok r then (Inl (Error (''Failed to fetch: HTTP '' @ status_text (Some r))), m)
          else (case body r of
                  Blank \<Rightarrow> (Inl (Error ''Workflows file is empty''), m)
                | Malformed \<Rightarrow> (Inl SyntaxError, m)
                | Json v \<Rightarrow>
                    (case normalize_workflows v of
                       Inl e \<Rightarrow> (Inl e, m)
                     | Inr validatedWorkflows \<Rightarrow> storeWorkflows w (JObj validatedWorkflows) m)))"

definition workflows_step :: "world \<Rightarrow> dbmanager \<Rightarrow> warning list \<Rightarrow> dbmanager \<times> warning list" where
  "workflows_step w m errs =
     (case load_workflows w m of
        (Inl workflowsError, m') \<Rightarrow> (m', errs @ [WorkflowsFailed workflowsError])
      | (Inr done, m') \<Rightarrow> (m', errs))"

record import_run =
  completed :: bool
  manager :: dbmanager
  errors :: "warning list"
  processedItems :: nat
  failedItems :: nat

text \<open>The loop over the batches of five index entries, from position \<open>i\<close> on.\<close>

function import_batches :: "world \<Rightarrow> js list \<Rightarrow> nat \<Rightarrow> import_run \<Rightarrow> import_run" where
  "import_batches w idx i run =
     (if i < length idx then
        (let batch = take 5 (drop i idx) in
         case storeItemBatch w batch (manager run) of
           (Inr result, m') \<Rightarrow>
             import_batches w idx (i + 5)
               (run\<lparr>manager := m',
                    processedItems := processedItems run + succeeded result,
                    failedItems := failedItems run + failed result\<rparr>)
         | (Inl batchError, m') \<Rightarrow>
             import_batches w idx (i + 5)
               (run\<lparr>manager := m',
                    errors := errors run @ [BatchFailed i (i + 5) batchError],
                    failedItems := failedItems run + length batch\<rparr>))
      else run)"
  by pat_completeness auto
termination
  by (relation "measure (\<lambda>(w, idx, i, run). length idx - i)") auto

definition items_step :: "world \<Rightarrow> import_run \<Rightarrow> import_run" where
  "items_step w run =
     (let idx = (case itemIndex (manager run) of JArr xs \<Rightarrow> xs | _ \<Rightarrow> []) in
      if length idx > 0 then
        (let run' = import_batches w idx 0 run in
         if failedItems run' > 0
         then run'\<lparr>errors := errors run' @ [ItemsFailed (failedItems run')]\<rparr>
         else run')
      else run)"

text \<open>
  \<^verbatim>\<open>importData\<close>. \<open>completed\<close> is the boolean the promise resolves with; the record also
  keeps the manager, the \<^verbatim>\<open>errors\<close> list and the two counters as the run leaves them.
\<close>

definition importData :: "world \<Rightarrow> dbmanager \<Rightarrow> import_run" where
  "importData w m =
     (case (if \<not> ready m then initDB w m else (Inr True, m)) of
        (Inl initError, m0) \<Rightarrow>
          \<lparr>completed = False, manager = m0, errors = [], processedItems = 0, failedItems = 0\<rparr>
      | (Inr opened, m0) \<Rightarrow>
          (case clear_step w m0 [] of (m1, errs1) \<Rightarrow>
           case index_step w m1 errs1 of (m2, errs2) \<Rightarrow>
           case appinfo_step w m2 errs2 of
             (Inl (error, errs3), m3) \<Rightarrow>
               \<lparr>completed = False, manager = m3, errors = errs3, processedItems = 0, failedItems = 0\<rparr>
           | (Inr errs3, m3) \<Rightarrow>
               (case workflows_step w m3 errs3 of (m4, errs4) \<Rightarrow>
                items_step w
                  \<lparr>completed = True, manager = m4, errors = errs4,
                   processedItems = 0, failedItems = 0\<rparr>)))"

section \<open>The service worker\<close>

definition CACHE_NAME :: string where
  "CACHE_NAME = ''hydroblox-offline-v2''"

definition PRECACHE_URLS :: "string list" where
  "PRECACHE_URLS =
     [''./'', ''./index.html'', ''./offline.html'', ''./manifest.json'', ''./js/app.js'',
      ''./js/db-manager.js'', ''./js/hydrolang/hydrolang.js'', ''./js/hydrolang/181.hydrolang.js'',
      ''./js/hydrolang/841.hydrolang.js'', ''./js/hydrolang/972.hydrolang.js'',
      ''./js/hydrolang/utils/nn.worker.js'', ''./js/hydrolang/hydrolang_functions_schema2.json'',
      ''./js/hydrolang/hydrolang_datasources_schema.json'', ''./styles/results.css'',
      ''./styles/data-visualizer.css'', ''./styles/exports.css'', ''./icons/icon-192.svg'',
      ''./icons/icon-512.svg'', ''./icons/maskable-icon.svg'', ''./data/app-info.json'',
      ''./data/item-index.json'', ''./data/workflows.json'']"

text \<open>
  A GET request as the worker sees it: \<open>url\<close> is \<^verbatim>\<open>req.url\<close> (absolute), \<open>pathname\<close> the
  path that \<^verbatim>\<open>new URL(req.url)\<close> gives. A cache maps a request url to a response; the
  cache storage is the list of the named caches in the order of their creation.
\<close>

record request =
  url :: string
  pathname :: string
  destination :: string
  mode :: string

type_synonym cache = "(string \<times> response) list"
type_synonym cache_storage = "(string \<times> cache) list"

text \<open>
  The worker's surroundings: \<open>origin\<close> (such as \<^verbatim>\<open>https://host\<close>), \<open>scope\<close>, the directory
  of the worker's script, which relative urls start from (such as \<^verbatim>\<open>https://host/app/\<close>),
  and \<open>online\<close>, what \<^verbatim>\<open>fetch\<close> of a url gives: \<open>None\<close> when it rejects.
\<close>

record worker =
  origin :: string
  scope :: string
  online :: "string \<Rightarrow> response option"

definition resolve_url :: "worker \<Rightarrow> string \<Rightarrow> string" where
  "resolve_url sw u =
     (if take 2 u = ''./'' then scope sw @ drop 2 u
      else if take 1 u = ''/'' then origin sw @ u
      else u)"

definition endsWith :: "string \<Rightarrow> string \<Rightarrow> bool" where
  "endsWith s suffix = (length suffix \<le> length s \<and> drop (length s - length suffix) s = suffix)"

fun contains :: "string \<Rightarrow> string \<Rightarrow> bool" where
  "contains [] p = (p = [])"
| "contains (c # cs) p = (take (length p) (c # cs) = p \<or> contains cs p)"

text \<open>\<^verbatim>\<open>caches.match\<close> looks through every cache, \<^verbatim>\<open>cache.put\<close> writes into the named one.\<close>

fun caches_match :: "cache_storage \<Rightarrow> string \<Rightarrow> response option" where
  "caches_match [] u = None"
| "caches_match ((name, c) # cs) u =
     (case map_of c u of Some r \<Rightarrow> Some r | None \<Rightarrow> caches_match cs u)"

definition caches_open :: "string \<Rightarrow> cache_storage \<Rightarrow> cache_storage" where
  "caches_open name cs = (if name \<in> set (map fst cs) then cs else cs @ [(name, [])])"

definition cache_put :: "string \<Rightarrow> string \<Rightarrow> response \<Rightarrow> cache_storage \<Rightarrow> cache_storage" where
  "cache_put name u r cs =
     upsert name (upsert u r (case map_of cs name of Some c \<Rightarrow> c | None \<Rightarrow> [])) cs"

text \<open>
  The install handler: \<^verbatim>\<open>cache.add\<close> fetches a url and stores the response when it is ok;
  a failure is caught for each url on its own.
\<close>

definition install :: "worker \<Rightarrow> cache_storage \<Rightarrow> cache_storage" where
  "install sw cs =
     foldl (\<lambda>cs u. case online sw (resolve_url sw u) of
                      Some r \<Rightarrow> if ok r then cache_put CACHE_NAME (resolve_url sw u) r cs else cs
                    | None \<Rightarrow> cs)
       (caches_open CACHE_NAME cs) PRECACHE_URLS"

definition activate :: "cache_storage \<Rightarrow> cache_storage" where
  "activate cs = filter (\<lambda>(cacheName, c). cacheName = CACHE_NAME) cs"

definition isScriptOrStyle :: "request \<Rightarrow> bool" where
  "isScriptOrStyle req =
     (destination req = ''script'' \<or> destination req = ''style'' \<or>
      endsWith (pathname req) ''.js'' \<or> endsWith (pathname req) ''.css'')"

text \<open>
  The promise that the first fetch listener hands to \<^verbatim>\<open>respondWith\<close>: what it settles
  to (\<open>None\<close> is \<^verbatim>\<open>undefined\<close>, no response) and the cache storage afterwards.
\<close>

definition cache_reply :: "worker \<Rightarrow> request \<Rightarrow> cache_storage \<Rightarrow> response option \<times> cache_storage" where
  "cache_reply sw req cs =
     (if isScriptOrStyle req then
        (case online sw (url req) of
           Some resp \<Rightarrow> (Some resp, cache_put CACHE_NAME (url req) resp cs)
         | None \<Rightarrow> (caches_match cs (url req), cs))
      else
        (case caches_match cs (url req) of
           Some cached \<Rightarrow> (Some cached, cs)
         | None \<Rightarrow>
             (case online sw (url req) of
                Some resp \<Rightarrow> (Some resp, cache_put CACHE_NAME (url req) resp cs)
              | None \<Rightarrow>
                  if mode req = ''navigate''
                  then (caches_match cs (resolve_url sw ''/offline.html''), cs)
                  else (None, cs))))"

text \<open>The promise that the second fetch listener builds for a data request.\<close>

definition data_reply :: "worker \<Rightarrow> request \<Rightarrow> cache_storage \<Rightarrow> response option" where
  "data_reply sw req cs =
     (case caches_match cs (url req) of
        Some response \<Rightarrow> Some response
      | None \<Rightarrow>
          (case online sw (url req) of
             Some response \<Rightarrow> Some response
           | None \<Rightarrow>
               if contains (url req) ''workflows.json''
               then Some \<lparr>status = 200, body = Json (JObj [])\<rparr>
               else None))"

text \<open>
  \<^verbatim>\<open>event.respondWith(p)\<close> on a fetch event whose state is \<open>None\<close> before any listener has
  responded and \<open>Some p\<close> afterwards: the platform raises an InvalidStateError when the
  event has been responded to already.
\<close>

definition respondWith :: "response option \<Rightarrow> response option option \<Rightarrow> error + response option option" where
  "respondWith p ev = (case ev of Some p' \<Rightarrow> Inl InvalidStateError | None \<Rightarrow> Inr (Some p))"

text \<open>
  One fetch event, handed to the two listeners in the order of their registration. The
  first listener calls \<^verbatim>\<open>respondWith\<close> on every path; the second calls it for a url that
  contains \<^verbatim>\<open>/data/\<close>, and an exception there ends that listener and leaves the event as
  it is. The result is what the page receives and the cache storage afterwards; an event
  no listener responded to goes to the network.
\<close>

definition handle_fetch :: "worker \<Rightarrow> request \<Rightarrow> cache_storage \<Rightarrow> response option \<times> cache_storage" where
  "handle_fetch sw req cs =
     (case cache_reply sw req cs of (p1, cs') \<Rightarrow>
        (let ev1 = (case respondWith p1 None of Inl e \<Rightarrow> None | Inr ev \<Rightarrow> ev);
             ev2 = (if contains (url req) ''/data/''
                    then (case respondWith (data_reply sw req cs) ev1 of Inl e \<Rightarrow> ev1 | Inr ev \<Rightarrow> ev)
                    else ev1)
         in (case ev2 of Some p \<Rightarrow> p | None \<Rightarrow> online sw (url req), cs')))"

section \<open>Notions used in the statements\<close>

text \<open>
  The records that the callbacks of a batch load, in the order of the entries; an index
  entry is storable when its callback does not raise and the record it loads, if any, has
  a valid key that the storage engine accepts; the content of a store is the mapping from
  its keys to its records.
\<close>

definition loaded :: "world \<Rightarrow> js list \<Rightarrow> js list" where
  "loaded w entries =
     List.map_filter (\<lambda>e. case loadItem w e of Inr (Some r) \<Rightarrow> Some r | _ \<Rightarrow> None) entries"

definition storable :: "world \<Rightarrow> js \<Rightarrow> bool" where
  "storable w e =
     (case loadItem w e of
        Inl err \<Rightarrow> False
      | Inr None \<Rightarrow> True
      | Inr (Some r) \<Rightarrow>
          valid_key (field r ''uniqueId'') \<and> put_fault w ''items'' (field r ''uniqueId'') = None)"

definition contents :: "database \<Rightarrow> (js \<rightharpoonup> js) \<times> (js \<rightharpoonup> js) \<times> (js \<rightharpoonup> js)" where
  "contents d = (map_of (workflows d), map_of (items d), map_of (appInfo d))"

text \<open>
  The payload that the run fetches for the item with id \<open>k\<close>, when the fetch succeeds with
  a body that parses; and what makes a stored record the record of that item.
\<close>

definition payload_of :: "world \<Rightarrow> js \<Rightarrow> js option" where
  "payload_of w k =
     (case to_string k of
        None \<Rightarrow> None
      | Some idText \<Rightarrow>
          (case outcome (fetchWithRetry (fetch w) (''./data/items/'' @ idText @ ''.json'') 2) of
             Inr (Some resp) \<Rightarrow> (case body resp of Json v \<Rightarrow> Some v | _ \<Rightarrow> None)
           | _ \<Rightarrow> None))"

definition item_for :: "world \<Rightarrow> js \<Rightarrow> js \<Rightarrow> bool" where
  "item_for w k r =
     (field r ''uniqueId'' = k \<and> field r ''data'' \<noteq> JUndef \<and>
      (\<exists>payload. payload_of w k = Some payload \<and>
         field r ''data'' = (if field payload ''data'' \<noteq> JUndef then field payload ''data'' else payload)))"

text \<open>
  The data carries its own timestamps when no stored record takes a time from the clock:
  every index entry has a \<^verbatim>\<open>timestamp\<close>, and the app-info resource is served with an
  \<^verbatim>\<open>exportDate\<close>.
\<close>

definition own_timestamps :: "world \<Rightarrow> bool" where
  "own_timestamps w =
     (list_all (\<lambda>itemMeta. truthy (field itemMeta ''timestamp''))
        (case fetch_index w of Inl e \<Rightarrow> [] | Inr xs \<Rightarrow> xs) \<and>
      (case fetch_appInfo w of
         Inl e \<Rightarrow> False
       | Inr a \<Rightarrow> \<not> nullish a \<and> truthy (field (js_or (field a ''appInfo'') a) ''exportDate'')))"

section \<open>Example inputs\<close>

definition always_503 :: network where
  "always_503 u i = Responds \<lparr>status = 503, body = Blank\<rparr>"

definition status_then_reject :: network where
  "status_then_reject u i =
     (if i = 0 then Responds \<lparr>status = 503, body = Blank\<rparr>
      else Rejects (NetworkError ''Failed to fetch''))"

definition reject_then_503 :: network where
  "reject_then_503 u i =
     (if i = 0 then Rejects (NetworkError ''Failed to fetch'')
      else Responds \<lparr>status = 503, body = Blank\<rparr>)"

definition reject_then_ok :: network where
  "reject_then_ok u i =
     (if i = 0 then Rejects (NetworkError ''Failed to fetch'')
      else Responds \<lparr>status = 200, body = Json (JObj [])\<rparr>)"

text \<open>
  A small remote dataset: two index entries, of which item \<^verbatim>\<open>a\<close> is served and item \<^verbatim>\<open>b\<close>
  is unreachable, and a workflow collection given as an array.
\<close>

definition demo_fetch :: network where
  "demo_fetch u i =
     (if u = ''./data/item-index.json'' then
        Responds \<lparr>status = 200, body = Json (JArr
          [JObj [(''id'', JStr ''a''), (''workflowId'', JStr ''w1''), (''itemName'', JStr ''load'')],
           JObj [(''id'', JStr ''b''), (''workflowId'', JStr ''w1''), (''itemName'', JStr ''plot'')]])\<rparr>
      else if u = ''./data/app-info.json'' then
        Responds \<lparr>status = 200, body = Json (JObj
          [(''appInfo'', JObj [(''version'', JStr ''2.1.0''), (''exportDate'', JStr ''2024-05-01T10:00:00.000Z''),
                               (''name'', JStr ''Demo'')])])\<rparr>
      else if u = ''./data/workflows.json'' then
        Responds \<lparr>status = 200, body = Json (JArr
          [JObj [(''id'', JStr ''w1''), (''items'', JArr [JObj [(''uniqueId'', JStr ''a'')], JNull])],
           JObj [(''workflowId'', JStr ''w2''), (''items'', JArr [])],
           JObj [(''id'', JStr ''w3'')]])\<rparr>
      else if u = ''./data/items/a.json'' then
        Responds \<lparr>status = 200, body = Json (JObj [(''data'', JObj [(''v'', JNum ''1'')])])\<rparr>
      else if u = ''./data/items/b.json'' then Rejects (NetworkError ''Failed to fetch'')
      else Responds \<lparr>status = 404, body = Blank\<rparr>)"

definition empty_database :: database where
  "empty_database = \<lparr>workflows = [], items = [], appInfo = []\<rparr>"

definition demo_world :: world where
  "demo_world =
     \<lparr>fetch = demo_fetch, clock = ''2024-06-01T12:00:00.000Z'', open_error = None,
      disk = empty_database, clear_fault = None, put_fault = (\<lambda>s k. None),
      read_fault = (\<lambda>s. None)\<rparr>"

definition demo_world_later :: world where
  "demo_world_later = demo_world\<lparr>clock := ''2024-06-01T12:05:00.000Z''\<rparr>"

definition offline_worker :: worker where
  "offline_worker =
     \<lparr>origin = ''https://app.example'', scope = ''https://app.example/'', online = (\<lambda>u. None)\<rparr>"


definition subdirectory_worker :: worker where
  "subdirectory_worker =
     \<lparr>origin = ''https://app.example'', scope = ''https://app.example/export/'',
      online = (\<lambda>u. if u = ''https://app.example/export/offline.html''
                     then Some \<lparr>status = 200, body = Malformed\<rparr> else None)\<rparr>"

definition workflows_request :: request where
  "workflows_request =
     \<lparr>url = ''https://app.example/data/workflows.json'', pathname = ''/data/workflows.json'',
      destination = [], mode = ''cors''\<rparr>"

definition page_request :: request where
  "page_request =
     \<lparr>url = ''https://app.example/index.html'', pathname = ''/index.html'',
      destination = ''document'', mode = ''navigate''\<rparr>"

text \<open>The small dataset with another workflow collection.\<close>

definition with_workflows :: "js \<Rightarrow> world" where
  "with_workflows v =
     demo_world\<lparr>fetch := (\<lambda>u i. if u = ''./data/workflows.json''
                                then Responds \<lparr>status = 200, body = Json v\<rparr>
                                else demo_fetch u i)\<rparr>"

text \<open>
  The small dataset with item \<^verbatim>\<open>b\<close> served as well, on a storage engine that accepts the
  record of item \<^verbatim>\<open>a\<close> and refuses the record of item \<^verbatim>\<open>b\<close>.
\<close>

definition refusing_world :: world where
  "refusing_world =
     demo_world\<lparr>fetch := (\<lambda>u i. if u = ''./data/items/b.json''
                                then Responds \<lparr>status = 200, body = Json (JObj [(''data'', JObj [(''v'', JNum ''2'')])])\<rparr>
                                else demo_fetch u i),
                put_fault := (\<lambda>s k. if s = ''items'' \<and> k = JStr ''b''
                                     then Some ''QuotaExceededError'' else None)\<rparr>"

text \<open>The small dataset with an index whose one entry carries a timestamp.\<close>

definition stamped_world :: world where
  "stamped_world =
     demo_world\<lparr>fetch := (\<lambda>u i. if u = ''./data/item-index.json''
                                then Responds \<lparr>status = 200, body = Json (JArr
                                  [JObj [(''id'', JStr ''a''), (''workflowId'', JStr ''w1''),
                                         (''itemName'', JStr ''load''),
                                         (''timestamp'', JStr ''2024-04-30T09:00:00.000Z'')]])\<rparr>
                                else demo_fetch u i)\<rparr>"

declare fetchWithRetry_from.simps [simp del]
declare import_batches.simps [simp del]
declare show_nat.simps [simp del]

section \<open>The retrying fetcher: results\<close>

lemma from_all_not_ok:
  "(\<And>j. i \<le> j \<Longrightarrow> j < n \<Longrightarrow> \<exists>r. f u j = Responds r \<and> \<not> ok r) \<Longrightarrow>
   outcome (fetchWithRetry_from f u n i c t) = Inr None"
proof (induction f u n i c t rule: fetchWithRetry_from.induct)
  case (1 f url retries i c t)
  show ?case
  proof (cases "i < retries")
    case False
    then show ?thesis by (simp add: fetchWithRetry_from.simps)
  next
    case True
    from "1.prems" [of i] True obtain r where r: "f url i = Responds r" "\<not> ok r" by auto
    have "outcome (fetchWithRetry_from f url retries (i + 1) (c + 1) (t + 1000 * (i + 1))) = Inr None"
      by (rule "1.IH"(2) [OF True r]) (use "1.prems" in auto)
    with True r show ?thesis by (subst fetchWithRetry_from.simps) simp
  qed
qed

lemma from_last_rejects:
  "i < n \<Longrightarrow> (\<And>j. i \<le> j \<Longrightarrow> j < n \<Longrightarrow> attempt_failed (f u j)) \<Longrightarrow> f u (n - 1) = Rejects e \<Longrightarrow>
   outcome (fetchWithRetry_from f u n i c t) = Inl e"
proof (induction f u n i c t rule: fetchWithRetry_from.induct)
  case (1 f url retries i c t)
  have fl: "attempt_failed (f url i)" using "1.prems" by auto
  show ?case
  proof (cases "i = retries - 1")
    case True
    with "1.prems" show ?thesis by (subst fetchWithRetry_from.simps) simp
  next
    case False
    with "1.prems" have lt: "i + 1 < retries" by arith
    show ?thesis
    proof (cases "f url i")
      case (Rejects e')
      have "outcome (fetchWithRetry_from f url retries (i + 1) (c + 1) (t + 1000 * (i + 1))) = Inl e"
        by (rule "1.IH"(1) [OF "1.prems"(1) Rejects False lt]) (use "1.prems" in auto)
      with Rejects False "1.prems"(1) show ?thesis by (subst fetchWithRetry_from.simps) simp
    next
      case (Responds r)
      with fl have nok: "\<not> ok r" by (simp add: attempt_failed_def)
      have "outcome (fetchWithRetry_from f url retries (i + 1) (c + 1) (t + 1000 * (i + 1))) = Inl e"
        by (rule "1.IH"(2) [OF "1.prems"(1) Responds nok lt]) (use "1.prems" in auto)
      with Responds nok "1.prems"(1) show ?thesis by (subst fetchWithRetry_from.simps) simp
    qed
  qed
qed

lemma from_last_not_ok:
  "i < n \<Longrightarrow> (\<And>j. i \<le> j \<Longrightarrow> j < n \<Longrightarrow> attempt_failed (f u j)) \<Longrightarrow>
   f u (n - 1) = Responds r \<Longrightarrow>
   outcome (fetchWithRetry_from f u n i c t) = Inr None"
proof (induction f u n i c t rule: fetchWithRetry_from.induct)
  case (1 f url retries i c t)
  have fl: "attempt_failed (f url i)" using "1.prems" by auto
  show ?case
  proof (cases "i = retries - 1")
    case True
    with "1.prems"(3) fl have nok: "\<not> ok r" by (simp add: attempt_failed_def)
    have stop: "outcome (fetchWithRetry_from f url retries (i + 1) (c + 1) (t + 1000 * (i + 1))) = Inr None"
      using True "1.prems"(1) by (subst fetchWithRetry_from.simps) simp
    from True "1.prems"(1,3) nok stop show ?thesis
      by (subst fetchWithRetry_from.simps) simp
  next
    case False
    with "1.prems" have lt: "i + 1 < retries" by arith
    show ?thesis
    proof (cases "f url i")
      case (Rejects e')
      have "outcome (fetchWithRetry_from f url retries (i + 1) (c + 1) (t + 1000 * (i + 1))) = Inr None"
        by (rule "1.IH"(1) [OF "1.prems"(1) Rejects False lt]) (use "1.prems" in auto)
      with Rejects False "1.prems"(1) show ?thesis by (subst fetchWithRetry_from.simps) simp
    next
      case (Responds r')
      with fl have nok: "\<not> ok r'" by (simp add: attempt_failed_def)
      have "outcome (fetchWithRetry_from f url retries (i + 1) (c + 1) (t + 1000 * (i + 1))) = Inr None"
        by (rule "1.IH"(2) [OF "1.prems"(1) Responds nok lt]) (use "1.prems" in auto)
      with Responds nok "1.prems"(1) show ?thesis by (subst fetchWithRetry_from.simps) simp
    qed
  qed
qed

lemma from_first_ok:
  "i \<le> k \<Longrightarrow> k < n \<Longrightarrow> f u k = Responds r \<Longrightarrow> ok r \<Longrightarrow>
   (\<And>j. i \<le> j \<Longrightarrow> j < k \<Longrightarrow> attempt_failed (f u j)) \<Longrightarrow>
   outcome (fetchWithRetry_from f u n i c t) = Inr (Some r) \<and>
   calls (fetchWithRetry_from f u n i c t) = c + (k - i) + 1"
proof (induction f u n i c t rule: fetchWithRetry_from.induct)
  case (1 f url retries i c t)
  show ?case
  proof (cases "i = k")
    case True
    with "1.prems" show ?thesis by (subst (1 2) fetchWithRetry_from.simps) simp
  next
    case False
    with "1.prems" have lt: "i < k" "i < retries" "i \<noteq> retries - 1" "i + 1 \<le> k" by arith+
    have fl: "attempt_failed (f url i)" using "1.prems"(5) lt by auto
    show ?thesis
    proof (cases "f url i")
      case (Rejects e')
      have "outcome (fetchWithRetry_from f url retries (i + 1) (c + 1) (t + 1000 * (i + 1))) = Inr (Some r) \<and>
            calls (fetchWithRetry_from f url retries (i + 1) (c + 1) (t + 1000 * (i + 1))) = (c + 1) + (k - (i + 1)) + 1"
        by (rule "1.IH"(1) [OF lt(2) Rejects lt(3) lt(4) "1.prems"(2,3,4)]) (use "1.prems" in auto)
      with Rejects lt show ?thesis by (subst (1 2) fetchWithRetry_from.simps) simp
    next
      case (Responds r')
      with fl have nok: "\<not> ok r'" by (simp add: attempt_failed_def)
      have "outcome (fetchWithRetry_from f url retries (i + 1) (c + 1) (t + 1000 * (i + 1))) = Inr (Some r) \<and>
            calls (fetchWithRetry_from f url retries (i + 1) (c + 1) (t + 1000 * (i + 1))) = (c + 1) + (k - (i + 1)) + 1"
        by (rule "1.IH"(2) [OF lt(2) Responds nok lt(4) "1.prems"(2,3,4)]) (use "1.prems" in auto)
      with Responds nok lt show ?thesis by (subst (1 2) fetchWithRetry_from.simps) simp
    qed
  qed
qed

text \<open>
  Claim C2, as stated: when every attempt fails, the failure of the last one reaches the
  caller as an error. It does not when the attempts end with a response whose status is
  not a success: with three attempts that each answer 503, the call resolves with
  \<^verbatim>\<open>undefined\<close> and raises nothing.
\<close>

theorem fetchWithRetry_status_failure_not_raised:
  "attempt_failed (always_503 ''./data/item-index.json'' 0) \<and>
   attempt_failed (always_503 ''./data/item-index.json'' 1) \<and>
   attempt_failed (always_503 ''./data/item-index.json'' 2) \<and>
   outcome (fetchWithRetry always_503 ''./data/item-index.json'' 3) = Inr None"
  by (simp add: fetchWithRetry_def fetchWithRetry_from.simps always_503_def attempt_failed_def ok_def)

text \<open>
  Claim C2, amended: when every attempt fails and the last attempt is a transport failure,
  that failure is raised to the caller; when every attempt fails and the last attempt is
  a response whose status is not a success, nothing is raised and the call resolves with
  no response; and an attempt that returns an ok response ends the call at once with that
  response, no further attempt being made (the number of \<^verbatim>\<open>fetch\<close> calls is the position
  of that attempt).
\<close>

theorem fetchWithRetry_surfaces_rejection_and_stops_on_ok:
  "(0 < retries \<and> (\<forall>i<retries. attempt_failed (f u i)) \<and> f u (retries - 1) = Rejects e
      \<longrightarrow> outcome (fetchWithRetry f u retries) = Inl e) \<and>
   (0 < retries \<and> (\<forall>i<retries. attempt_failed (f u i)) \<and> f u (retries - 1) = Responds r'
      \<longrightarrow> outcome (fetchWithRetry f u retries) = Inr None) \<and>
   (k < retries \<and> f u k = Responds r \<and> ok r \<and> (\<forall>i<k. attempt_failed (f u i))
      \<longrightarrow> outcome (fetchWithRetry f u retries) = Inr (Some r) \<and>
          calls (fetchWithRetry f u retries) = k + 1)"
proof (intro conjI impI)
  assume "0 < retries \<and> (\<forall>i<retries. attempt_failed (f u i)) \<and> f u (retries - 1) = Rejects e"
  then show "outcome (fetchWithRetry f u retries) = Inl e"
    unfolding fetchWithRetry_def by (intro from_last_rejects) auto
next
  assume "0 < retries \<and> (\<forall>i<retries. attempt_failed (f u i)) \<and> f u (retries - 1) = Responds r'"
  then show "outcome (fetchWithRetry f u retries) = Inr None"
    unfolding fetchWithRetry_def by (intro from_last_not_ok[of _ _ _ _ r']) auto
next
  assume a: "k < retries \<and> f u k = Responds r \<and> ok r \<and> (\<forall>i<k. attempt_failed (f u i))"
  then have "outcome (fetchWithRetry_from f u retries 0 0 0) = Inr (Some r) \<and>
             calls (fetchWithRetry_from f u retries 0 0 0) = 0 + (k - 0) + 1"
    by (intro from_first_ok) auto
  then show "outcome (fetchWithRetry f u retries) = Inr (Some r)"
    and "calls (fetchWithRetry f u retries) = k + 1"
    by (simp_all add: fetchWithRetry_def)
qed

theorem fetchWithRetry_surfaces_rejection_and_stops_on_ok_witness:
  "outcome (fetchWithRetry status_then_reject ''./data/app-info.json'' 2) = Inl (NetworkError ''Failed to fetch'') \<and>
   outcome (fetchWithRetry reject_then_503 ''./data/app-info.json'' 2) = Inr None \<and>
   outcome (fetchWithRetry reject_then_ok ''./data/app-info.json'' 3)
     = Inr (Some \<lparr>status = 200, body = Json (JObj [])\<rparr>) \<and>
   calls (fetchWithRetry reject_then_ok ''./data/app-info.json'' 3) = 2"
proof -
  have a: "(0::nat) < 2 \<and> (\<forall>i<2. attempt_failed (status_then_reject ''./data/app-info.json'' i)) \<and>
           status_then_reject ''./data/app-info.json'' (2 - 1) = Rejects (NetworkError ''Failed to fetch'')"
    by (simp add: status_then_reject_def attempt_failed_def ok_def)
  have b: "(1::nat) < 3 \<and> reject_then_ok ''./data/app-info.json'' 1 = Responds \<lparr>status = 200, body = Json (JObj [])\<rparr> \<and>
           ok \<lparr>status = 200, body = Json (JObj [])\<rparr> \<and>
           (\<forall>i<1. attempt_failed (reject_then_ok ''./data/app-info.json'' i))"
    by (simp add: reject_then_ok_def attempt_failed_def ok_def)
  have c: "(0::nat) < 2 \<and> (\<forall>i<2. attempt_failed (reject_then_503 ''./data/app-info.json'' i)) \<and>
           reject_then_503 ''./data/app-info.json'' (2 - 1) = Responds \<lparr>status = 503, body = Blank\<rparr>"
    by (simp add: reject_then_503_def attempt_failed_def ok_def)
  from a b c
    fetchWithRetry_surfaces_rejection_and_stops_on_ok
      [of 2 status_then_reject "''./data/app-info.json''" "NetworkError ''Failed to fetch''" _ 0]
    fetchWithRetry_surfaces_rejection_and_stops_on_ok
      [of 2 reject_then_503 "''./data/app-info.json''" _ "\<lparr>status = 503, body = Blank\<rparr>" 0]
    fetchWithRetry_surfaces_rejection_and_stops_on_ok
      [of 3 reject_then_ok "''./data/app-info.json''" _ _ 1 "\<lparr>status = 200, body = Json (JObj [])\<rparr>"]
  show ?thesis by simp
qed

text \<open>
  Claim C10: when every attempt receives a response that is not ok and none raises, the
  call resolves with \<^verbatim>\<open>undefined\<close>: it gives neither a response nor an error.
\<close>

theorem fetchWithRetry_undefined_when_never_ok:
  "(\<forall>i<retries. \<exists>r. f u i = Responds r \<and> \<not> ok r) \<Longrightarrow>
   outcome (fetchWithRetry f u retries) = Inr None"
  unfolding fetchWithRetry_def by (rule from_all_not_ok) auto

theorem fetchWithRetry_undefined_when_never_ok_witness:
  "outcome (fetchWithRetry always_503 ''./data/workflows.json'' 3) = Inr None"
proof -
  have h: "\<forall>i<3. \<exists>r. always_503 ''./data/workflows.json'' i = Responds r \<and> \<not> ok r"
    by (simp add: always_503_def ok_def)
  from h fetchWithRetry_undefined_when_never_ok [of 3 always_503 "''./data/workflows.json''"]
  show ?thesis by simp
qed

section \<open>The import run: completion\<close>

lemma db_clear_step:
  "clear_step w m errs = (m', errs') \<Longrightarrow> db m \<noteq> None \<Longrightarrow> db m' \<noteq> None"
  by (auto simp: clear_step_def clearDatabase_def split: if_splits option.splits prod.splits sum.splits)

lemma db_index_step:
  "index_step w m errs = (m', errs') \<Longrightarrow> db m' = db m"
  by (auto simp: index_step_def split: sum.splits)

lemma nullish_fallback [simp]: "\<not> nullish (fallback_appInfo w)"
  by (simp add: nullish_def fallback_appInfo_def)

lemma appinfo_step_raises:
  "db m \<noteq> None \<Longrightarrow>
   (\<exists>e m'. appinfo_step w m errs = (Inl e, m')) = (put_fault w ''appInfo'' (JStr ''appInfo'') \<noteq> None)"
  by (auto simp: appinfo_step_def storeAppInfo_def split: sum.splits option.splits prod.splits if_splits)

lemma completed_import_batches:
  "completed (import_batches w idx i run) = completed run"
proof (induction w idx i run rule: import_batches.induct)
  case (1 w idx i run)
  show ?case
  proof (cases "i < length idx")
    case False
    then show ?thesis by (simp add: import_batches.simps)
  next
    case True
    obtain res m' where s: "storeItemBatch w (take 5 (drop i idx)) (manager run) = (res, m')"
      by (cases "storeItemBatch w (take 5 (drop i idx)) (manager run)")
    show ?thesis using "1.IH" True s
      by (subst import_batches.simps) (auto simp: Let_def split: sum.splits)
  qed
qed

lemma completed_items_step: "completed (items_step w run) = completed run"
  by (simp add: items_step_def Let_def completed_import_batches)

text \<open>
  Claim C1: once the store is open (it was ready, or \<^verbatim>\<open>initDB\<close> succeeds), the run returns
  true whatever the clear, the three fetches, the normalisation and the item batches do;
  it returns false only when \<^verbatim>\<open>initDB\<close> fails or an exception leaves the run, and the one
  call that is not guarded is the write of the fallback app-info record, which raises
  exactly when the storage engine refuses the app-info put. The theorem holds for every
  behaviour of the network, of the clear and of the other writes.
  The hypothesis is the invariant of \<^verbatim>\<open>DBManager\<close>: \<^verbatim>\<open>ready\<close> is only set together with
  \<^verbatim>\<open>db\<close>.
\<close>

theorem importData_true_unless_open_fails:
  assumes "ready m \<longrightarrow> db m \<noteq> None"
  shows "completed (importData w m) \<longleftrightarrow>
         (ready m \<or> open_error w = None) \<and> put_fault w ''appInfo'' (JStr ''appInfo'') = None"
proof -
  obtain r0 m0 where i: "(if \<not> ready m then initDB w m else (Inr True, m)) = (r0, m0)"
    by (cases "if \<not> ready m then initDB w m else (Inr True, m)")
  show ?thesis
  proof (cases r0)
    case (Inl e)
    with i have "\<not> ready m" "open_error w \<noteq> None"
      by (auto simp: initDB_def split: if_splits option.splits)
    with i Inl show ?thesis by (simp add: importData_def)
  next
    case (Inr b)
    with i assms have ok0: "ready m \<or> open_error w = None" and d0: "db m0 \<noteq> None"
      by (auto simp: initDB_def split: if_splits option.splits)
    obtain m1 e1 where c: "clear_step w m0 [] = (m1, e1)" by (cases "clear_step w m0 []")
    obtain m2 e2 where x: "index_step w m1 e1 = (m2, e2)" by (cases "index_step w m1 e1")
    have d2: "db m2 \<noteq> None" using db_clear_step[OF c d0] db_index_step[OF x] by simp
    obtain r3 m3 where a: "appinfo_step w m2 e2 = (r3, m3)" by (cases "appinfo_step w m2 e2")
    show ?thesis
    proof (cases r3)
      case (Inl e)
      with a appinfo_step_raises[OF d2, of w e2] have "put_fault w ''appInfo'' (JStr ''appInfo'') \<noteq> None"
        by auto
      with i Inr c x a Inl show ?thesis by (simp add: importData_def split: prod.splits)
    next
      case (Inr e3)
      with a appinfo_step_raises[OF d2, of w e2] have "put_fault w ''appInfo'' (JStr ''appInfo'') = None"
        by auto
      with i \<open>r0 = Inr b\<close> c x a Inr ok0 show ?thesis
        by (simp add: importData_def completed_items_step split: prod.splits)
    qed
  qed
qed

theorem importData_true_unless_open_fails_witness:
  "completed (importData demo_world new_DBManager) \<and>
   \<not> completed (importData (demo_world\<lparr>open_error := Some (StorageError ''blocked'')\<rparr>) new_DBManager)"
proof -
  have h: "ready new_DBManager \<longrightarrow> db new_DBManager \<noteq> None"
    by (simp add: new_DBManager_def)
  from h importData_true_unless_open_fails [OF h, of demo_world]
    importData_true_unless_open_fails [OF h, of "demo_world\<lparr>open_error := Some (StorageError ''blocked'')\<rparr>"]
  show ?thesis by (simp add: demo_world_def new_DBManager_def)
qed

section \<open>Operations on a manager that is not initialised\<close>

lemma loadItem_raises: "loadItem w x = Inl e \<Longrightarrow> e = TypeError"
  by (auto simp: loadItem_def split: if_splits option.splits sum.splits body.splits)

lemma raised_loads: "raised (map (loadItem w) batch) = Some e \<Longrightarrow> e = TypeError"
proof (induction batch)
  case Nil
  then show ?case by simp
next
  case (Cons x xs)
  then show ?case by (cases "loadItem w x") (auto dest: loadItem_raises)
qed

text \<open>
  Claim C9, as stated: every store operation fails with NotReady before the store is
  initialised. The write operations do not: \<^verbatim>\<open>storeAppInfo\<close> on a new manager fails with
  the TypeError of \<^verbatim>\<open>this.db.transaction\<close> on \<^verbatim>\<open>null\<close>.
\<close>

theorem write_operations_not_guarded:
  "\<not> ready new_DBManager \<and>
   fst (storeAppInfo demo_world (JObj []) new_DBManager) = Inl TypeError \<and>
   TypeError \<noteq> NotReady"
  by (simp add: new_DBManager_def storeAppInfo_def NotReady_def)

text \<open>
  Claim C9, amended: before initialisation the four query operations (\<^verbatim>\<open>getWorkflows\<close>,
  \<^verbatim>\<open>getWorkflowItems\<close>, \<^verbatim>\<open>getResult\<close>, \<^verbatim>\<open>clearDatabase\<close>) fail with NotReady; the three write
  operations have no readiness check and fail with a TypeError on the missing connection.
  None of them succeeds and none changes the manager.
\<close>

theorem operations_before_initialization:
  assumes "\<not> ready m" and "db m = None"
  shows "getWorkflows w m = Inl NotReady \<and>
         getWorkflowItems w workflowId m = Inl NotReady \<and>
         getResult w uniqueId m = Inl NotReady \<and>
         clearDatabase w m = (Inl NotReady, m) \<and>
         storeItemBatch w itemBatch m = (Inl TypeError, m) \<and>
         storeWorkflows w wfs m = (Inl TypeError, m) \<and>
         storeAppInfo w a m = (Inl TypeError, m)"
proof -
  have "storeItemBatch w itemBatch m = (Inl TypeError, m)"
    using assms(2) by (auto simp: storeItemBatch_def Let_def split: option.splits dest: raised_loads)
  with assms show ?thesis
    by (simp add: getWorkflows_def getWorkflowItems_def getResult_def clearDatabase_def
        storeWorkflows_def storeAppInfo_def)
qed

theorem operations_before_initialization_witness:
  "getWorkflows demo_world new_DBManager = Inl NotReady \<and>
   getResult demo_world (JStr ''a'') new_DBManager = Inl NotReady \<and>
   storeAppInfo demo_world (JObj []) new_DBManager = (Inl TypeError, new_DBManager)"
proof -
  have h: "\<not> ready new_DBManager" "db new_DBManager = None"
    by (simp_all add: new_DBManager_def)
  from operations_before_initialization [OF h, of demo_world _ "JStr ''a''" _ _ "JObj []"]
  show ?thesis by simp
qed

section \<open>The service worker: offline answers\<close>

text \<open>
  Claim C8 says that a request for \<^verbatim>\<open>workflows.json\<close> under \<^verbatim>\<open>/data/\<close> that finds nothing in
  the cache while the network is down is answered with a synthesized empty JSON object.
  The second listener builds that response, but the page never receives it: the first
  listener has responded to the event already, so the second \<^verbatim>\<open>respondWith\<close> raises, and
  the first listener's answer to a request that is not a navigation is no response.
\<close>

theorem workflows_fallback_never_delivered:
  "contains (url workflows_request) ''/data/'' \<and>
   contains (url workflows_request) ''workflows.json'' \<and>
   caches_match [] (url workflows_request) = None \<and>
   online offline_worker (url workflows_request) = None \<and>
   data_reply offline_worker workflows_request [] = Some \<lparr>status = 200, body = Json (JObj [])\<rparr> \<and>
   fst (handle_fetch offline_worker workflows_request []) = None"
  by (simp add: workflows_request_def offline_worker_def data_reply_def handle_fetch_def
      cache_reply_def respondWith_def isScriptOrStyle_def endsWith_def)





text \<open>
  The precache stores \<^verbatim>\<open>./offline.html\<close> relative to the worker's script and the fallback
  looks up \<^verbatim>\<open>/offline.html\<close> at the root of the origin: a worker served from a
  subdirectory precaches the document and still answers a failed navigation with nothing.
\<close>

lemma navigation_fallback_misses_in_subdirectory:
  "install subdirectory_worker [] =
     [(CACHE_NAME, [(''https://app.example/export/offline.html'', \<lparr>status = 200, body = Malformed\<rparr>)])] \<and>
   fst (handle_fetch (subdirectory_worker\<lparr>online := (\<lambda>u. None)\<rparr>)
          (page_request\<lparr>url := ''https://app.example/export/index.html'',
                        pathname := ''/export/index.html''\<rparr>)
          (install subdirectory_worker [])) = None"
  by (simp add: install_def subdirectory_worker_def PRECACHE_URLS_def resolve_url_def
      caches_open_def cache_put_def ok_def page_request_def handle_fetch_def cache_reply_def
      respondWith_def isScriptOrStyle_def endsWith_def)

section \<open>Stores and item batches: lemmas\<close>

lemma map_of_upsert: "map_of (upsert k v st) = (map_of st)(k \<mapsto> v)"
  by (induction st) (auto simp: fun_eq_iff)

lemma keys_upsert: "fst ` set (upsert k v st) = insert k (fst ` set st)"
  by (simp add: dom_map_of_conv_image_fst[symmetric] map_of_upsert)

lemma distinct_upsert: "distinct (map fst st) \<Longrightarrow> distinct (map fst (upsert k v st))"
  by (induction st) (auto simp: keys_upsert)

lemma upsert_new: "k \<notin> fst ` set st \<Longrightarrow> upsert k v st = st @ [(k, v)]"
  by (induction st) auto

lemma put_all_Nil [simp]: "put_all [] st = st"
  by (simp add: put_all_def)

lemma put_all_Cons [simp]: "put_all ((k, r) # krs) st = put_all krs (upsert k r st)"
  by (simp add: put_all_def)

lemma put_all_append: "put_all (xs @ ys) st = put_all ys (put_all xs st)"
  by (simp add: put_all_def)

lemma map_of_put_all: "map_of (put_all krs st) = map_of st ++ map_of (rev krs)"
proof (induction krs arbitrary: st)
  case Nil
  then show ?case by simp
next
  case (Cons kr krs)
  obtain k r where kr: "kr = (k, r)" by (cases kr)
  show ?case
    unfolding kr put_all_Cons Cons.IH map_of_upsert
    by (auto simp: fun_eq_iff map_add_def split: option.splits)
qed

lemma db_same [simp]: "db m = Some d \<Longrightarrow> m\<lparr>db := Some d\<rparr> = m"
  by (cases m) simp

lemma loaded_Nil [simp]: "loaded w [] = []"
  by (simp add: loaded_def List.map_filter_simps)

lemma loaded_Cons:
  "loaded w (e # es) = (case loadItem w e of Inr (Some r) \<Rightarrow> r # loaded w es | _ \<Rightarrow> loaded w es)"
  by (simp add: loaded_def List.map_filter_simps split: sum.splits option.splits)

lemma loaded_append: "loaded w (xs @ ys) = loaded w xs @ loaded w ys"
  by (simp add: loaded_def List.map_filter_def)

lemma valid_items_loaded:
  "List.map_filter (\<lambda>x. case x of Inr (Some r) \<Rightarrow> Some r | _ \<Rightarrow> None) (map (loadItem w) b) = loaded w b"
  by (induction b) (simp_all add: loaded_Cons List.map_filter_simps split: sum.splits option.splits)

lemma raised_None_iff: "raised xs = None \<longleftrightarrow> (\<forall>x \<in> set xs. \<forall>e. x \<noteq> Inl e)"
  by (induction xs rule: raised.induct) auto

lemma storable_no_raise: "\<forall>e \<in> set b. storable w e \<Longrightarrow> raised (map (loadItem w) b) = None"
  by (auto simp: raised_None_iff storable_def split: sum.splits)

lemma loaded_mem: "r \<in> set (loaded w b) \<longleftrightarrow> (\<exists>e \<in> set b. loadItem w e = Inr (Some r))"
  by (induction b) (auto simp: loaded_Cons split: sum.splits option.splits)

lemma first_fault_None: "(\<forall>k \<in> set ks. refuses k = None) \<Longrightarrow> first_fault refuses ks = None"
  by (induction ks) auto

lemma failed_count:
  "length (filter ((\<lambda>x. x = Inr None) \<circ> loadItem w) b) = length (filter (\<lambda>e. loadItem w e = Inr None) b)"
  by (simp add: o_def)

lemma put_items_storable:
  assumes "\<forall>r \<in> set vs. valid_key (field r ''uniqueId'') \<and> put_fault w ''items'' (field r ''uniqueId'') = None"
  shows "put_items w vs n = (Inr \<lparr>succeeded = length vs, failed = n\<rparr>, keyed vs)"
proof -
  have t: "takeWhile (\<lambda>item. valid_key (field item ''uniqueId'')) vs = vs"
    using assms by (simp add: takeWhile_eq_all_conv)
  have f: "first_fault (put_fault w ''items'') (map fst (keyed vs)) = None"
    using assms by (intro first_fault_None) (auto simp: keyed_def)
  show ?thesis by (simp add: put_items_def t f)
qed

lemma storeItemBatch_storable:
  assumes "\<forall>e \<in> set b. storable w e" and "db m = Some d"
  shows "storeItemBatch w b m =
          (Inr \<lparr>succeeded = length (loaded w b), failed = length (filter (\<lambda>e. loadItem w e = Inr None) b)\<rparr>,
           m\<lparr>db := Some (d\<lparr>items := put_all (keyed (loaded w b)) (items d)\<rparr>)\<rparr>)"
proof -
  have v: "\<forall>r \<in> set (loaded w b). valid_key (field r ''uniqueId'') \<and> put_fault w ''items'' (field r ''uniqueId'') = None"
    using assms(1) by (auto simp: loaded_mem storable_def split: sum.splits option.splits)
  show ?thesis
    using assms(2)
    by (simp add: storeItemBatch_def Let_def storable_no_raise[OF assms(1)] valid_items_loaded
        failed_count put_items_storable[OF v] keyed_def)
qed

lemma put_items_subset:
  assumes "put_items w vs n = (res, L)"
  shows "set L \<subseteq> set (keyed vs)"
proof -
  have "set (keyed (takeWhile (\<lambda>item. valid_key (field item ''uniqueId'')) vs)) \<subseteq> set (keyed vs)"
    by (auto simp: keyed_def dest: set_takeWhileD)
  with assms show ?thesis
    by (auto simp: put_items_def Let_def split: option.splits prod.splits)
qed

lemma storeItemBatch_effect:
  "\<exists>res L. set L \<subseteq> set (keyed (loaded w b)) \<and>
     (\<forall>m d. db m = Some d \<longrightarrow>
        storeItemBatch w b m = (res, m\<lparr>db := Some (d\<lparr>items := put_all L (items d)\<rparr>)\<rparr>))"
proof (cases "raised (map (loadItem w) b)")
  case (Some e)
  then show ?thesis
    by (intro exI[of _ "Inl e"] exI[of _ "[]"]) (simp add: storeItemBatch_def)
next
  case None
  show ?thesis
  proof (cases "loaded w b = []")
    case True
    with None show ?thesis
      by (intro exI[of _ "Inr \<lparr>succeeded = 0, failed = length (filter (\<lambda>x. x = Inr None) (map (loadItem w) b))\<rparr>"] exI[of _ "[]"])
        (simp add: storeItemBatch_def Let_def valid_items_loaded)
  next
    case False
    obtain res L where p: "put_items w (loaded w b) (length (filter (\<lambda>x. x = Inr None) (map (loadItem w) b))) = (res, L)"
      by (cases "put_items w (loaded w b) (length (filter (\<lambda>x. x = Inr None) (map (loadItem w) b)))")
    from None False p put_items_subset[OF p] show ?thesis
      by (intro exI[of _ res] exI[of _ L]) (simp add: storeItemBatch_def Let_def valid_items_loaded)
  qed
qed

lemma drop_batch: "take 5 (drop i idx) @ drop (i + 5) idx = drop i idx"
  by (metis add.commute append_take_drop_id drop_drop)

lemma keyed_Nil [simp]: "keyed [] = []"
  by (simp add: keyed_def)

lemma keyed_append: "keyed (xs @ ys) = keyed xs @ keyed ys"
  by (simp add: keyed_def)

lemma import_batches_storable:
  assumes "\<forall>e \<in> set (drop i idx). storable w e" and "db (manager run) = Some d"
  shows "import_batches w idx i run =
           run\<lparr>manager := (manager run)\<lparr>db := Some (d\<lparr>items := put_all (keyed (loaded w (drop i idx))) (items d)\<rparr>)\<rparr>,
               processedItems := processedItems run + length (loaded w (drop i idx)),
               failedItems := failedItems run + length (filter (\<lambda>e. loadItem w e = Inr None) (drop i idx))\<rparr>"
  using assms
proof (induction w idx i run arbitrary: d rule: import_batches.induct)
  case (1 w idx i run)
  show ?case
  proof (cases "i < length idx")
    case False
    with "1.prems"(2) show ?thesis by (simp add: import_batches.simps)
  next
    case True
    let ?b = "take 5 (drop i idx)"
    have sb: "\<forall>e \<in> set ?b. storable w e"
      using "1.prems"(1) by (auto dest: in_set_takeD)
    have sr: "\<forall>e \<in> set (drop (i + 5) idx). storable w e"
      using "1.prems"(1) by (metis drop_batch Un_iff set_append)
    let ?d' = "d\<lparr>items := put_all (keyed (loaded w ?b)) (items d)\<rparr>"
    let ?t = "\<lparr>succeeded = length (loaded w ?b), failed = length (filter (\<lambda>e. loadItem w e = Inr None) ?b)\<rparr>"
    let ?m' = "(manager run)\<lparr>db := Some ?d'\<rparr>"
    let ?run' = "run\<lparr>manager := ?m', processedItems := processedItems run + succeeded ?t,
                     failedItems := failedItems run + failed ?t\<rparr>"
    have sib: "storeItemBatch w ?b (manager run) = (Inr ?t, ?m')"
      by (rule storeItemBatch_storable[OF sb "1.prems"(2)])
    have ih: "import_batches w idx (i + 5) ?run' =
           ?run'\<lparr>manager := (manager ?run')\<lparr>db := Some (?d'\<lparr>items := put_all (keyed (loaded w (drop (i + 5) idx))) (items ?d')\<rparr>)\<rparr>,
               processedItems := processedItems ?run' + length (loaded w (drop (i + 5) idx)),
               failedItems := failedItems ?run' + length (filter (\<lambda>e. loadItem w e = Inr None) (drop (i + 5) idx))\<rparr>"
      by (rule "1.IH"(2)[OF True refl sib[symmetric] refl sr]) simp
    have split: "drop i idx = ?b @ drop (i + 5) idx" by (simp add: drop_batch)
    have l: "loaded w (drop i idx) = loaded w ?b @ loaded w (drop (i + 5) idx)"
      by (subst split) (simp add: loaded_append)
    have f: "filter (\<lambda>e. loadItem w e = Inr None) (drop i idx)
             = filter (\<lambda>e. loadItem w e = Inr None) ?b @ filter (\<lambda>e. loadItem w e = Inr None) (drop (i + 5) idx)"
      by (subst split) simp
    show ?thesis
      apply (subst import_batches.simps)
      apply (simp only: True if_True Let_def sib prod.case sum.case ih)
      apply (simp add: l f keyed_append put_all_append)
      done
  qed
qed

lemma import_batches_effect:
  "\<exists>L e p f. set L \<subseteq> set (keyed (loaded w (drop i idx))) \<and>
     (\<forall>run d. db (manager run) = Some d \<longrightarrow>
        import_batches w idx i run =
          run\<lparr>manager := (manager run)\<lparr>db := Some (d\<lparr>items := put_all L (items d)\<rparr>)\<rparr>,
              errors := errors run @ e,
              processedItems := processedItems run + p,
              failedItems := failedItems run + f\<rparr>)"
proof (induction "length idx - i" arbitrary: i rule: less_induct)
  case less
  show ?case
  proof (cases "i < length idx")
    case False
    then show ?thesis
      by (intro exI[of _ "[]"] exI[of _ "0::nat"]) (simp add: import_batches.simps)
  next
    case True
    let ?b = "take 5 (drop i idx)"
    obtain res L1 where s1: "set L1 \<subseteq> set (keyed (loaded w ?b))"
      and e1: "\<And>m d. db m = Some d \<Longrightarrow>
                 storeItemBatch w ?b m = (res, m\<lparr>db := Some (d\<lparr>items := put_all L1 (items d)\<rparr>)\<rparr>)"
      using storeItemBatch_effect[of w ?b] by blast
    from True have "length idx - (i + 5) < length idx - i" by arith
    from less[OF this] obtain L2 e2 p2 f2 where s2: "set L2 \<subseteq> set (keyed (loaded w (drop (i + 5) idx)))"
      and e2: "\<And>run d. db (manager run) = Some d \<Longrightarrow>
        import_batches w idx (i + 5) run =
          run\<lparr>manager := (manager run)\<lparr>db := Some (d\<lparr>items := put_all L2 (items d)\<rparr>)\<rparr>,
              errors := errors run @ e2,
              processedItems := processedItems run + p2,
              failedItems := failedItems run + f2\<rparr>"
      by blast
    have l: "loaded w (drop i idx) = loaded w ?b @ loaded w (drop (i + 5) idx)"
      by (subst drop_batch[symmetric]) (simp add: loaded_append)
    have sub: "set (L1 @ L2) \<subseteq> set (keyed (loaded w (drop i idx)))"
      using s1 s2 by (auto simp: l keyed_append)
    show ?thesis
    proof (cases res)
      case (Inr t)
      show ?thesis
        apply (rule exI[of _ "L1 @ L2"], rule exI[of _ e2], rule exI[of _ "succeeded t + p2"],
               rule exI[of _ "failed t + f2"])
        apply (intro conjI sub allI impI)
        apply (subst import_batches.simps)
        apply (simp add: True Let_def e1 Inr e2 put_all_append)
        done
    next
      case (Inl err)
      show ?thesis
        apply (rule exI[of _ "L1 @ L2"], rule exI[of _ "BatchFailed i (i + 5) err # e2"],
               rule exI[of _ "p2"], rule exI[of _ "length ?b + f2"])
        apply (intro conjI sub allI impI)
        apply (subst import_batches.simps)
        apply (simp add: True Let_def e1 Inl e2 put_all_append)
        done
    qed
  qed
qed

section \<open>The import run: the steps and the item tallies\<close>

lemma clear_step_frame:
  assumes "ready m" and "db m = Some d"
  shows "fst (clear_step w m errs) = m\<lparr>db := Some (if clear_fault w = None then empty_database else d)\<rparr>"
  using assms by (auto simp: clear_step_def clearDatabase_def empty_database_def split: option.splits)

lemma index_step_frame:
  "fst (index_step w m errs) = m\<lparr>itemIndex := JArr (case fetch_index w of Inl e \<Rightarrow> [] | Inr xs \<Rightarrow> xs)\<rparr>"
  by (simp add: index_step_def split: sum.splits)

lemma storeAppInfo_frame:
  "db m = Some d \<Longrightarrow> \<exists>ai. snd (storeAppInfo w a m) = m\<lparr>db := Some (d\<lparr>appInfo := ai\<rparr>)\<rparr>"
  by (auto simp: storeAppInfo_def split: option.splits intro: exI[of _ "appInfo d"])

lemma appinfo_step_frame:
  assumes "db m = Some d"
  shows "\<exists>ai. snd (appinfo_step w m errs) = m\<lparr>db := Some (d\<lparr>appInfo := ai\<rparr>)\<rparr>"
proof -
  obtain r1 m1 where s1: "(case fetch_appInfo w of Inl e \<Rightarrow> (Inl e, m) | Inr a \<Rightarrow> storeAppInfo w a m) = (r1, m1)"
    by (cases "case fetch_appInfo w of Inl e \<Rightarrow> (Inl e, m) | Inr a \<Rightarrow> storeAppInfo w a m")
  have "\<exists>ai. m1 = m\<lparr>db := Some (d\<lparr>appInfo := ai\<rparr>)\<rparr>"
  proof (cases "fetch_appInfo w")
    case (Inl e)
    with s1 assms show ?thesis by (auto intro: exI[of _ "appInfo d"])
  next
    case (Inr a)
    with s1 storeAppInfo_frame[OF assms, of w a] show ?thesis by auto
  qed
  then obtain ai where m1: "m1 = m\<lparr>db := Some (d\<lparr>appInfo := ai\<rparr>)\<rparr>" by blast
  show ?thesis
  proof (cases r1)
    case (Inr u)
    with s1 m1 show ?thesis by (auto simp: appinfo_step_def)
  next
    case (Inl e)
    have d1: "db m1 = Some (d\<lparr>appInfo := ai\<rparr>)" by (simp add: m1)
    from storeAppInfo_frame[OF d1, of w "fallback_appInfo w"] obtain ai' where
      "snd (storeAppInfo w (fallback_appInfo w) m1) = m1\<lparr>db := Some (d\<lparr>appInfo := ai\<rparr>\<lparr>appInfo := ai'\<rparr>)\<rparr>" by blast
    with s1 Inl m1 show ?thesis
      by (auto simp: appinfo_step_def split: prod.splits sum.splits intro!: exI[of _ ai'])
  qed
qed

lemma workflows_step_frame:
  assumes "db m = Some d"
  shows "\<exists>wf. fst (workflows_step w m errs) = m\<lparr>db := Some (d\<lparr>workflows := wf\<rparr>)\<rparr>"
proof -
  have st: "\<And>v. \<exists>wf. snd (storeWorkflows w v m) = m\<lparr>db := Some (d\<lparr>workflows := wf\<rparr>)\<rparr>"
    using assms by (auto simp: storeWorkflows_def split: js.splits option.splits prod.splits intro: exI[of _ "workflows d"])
  have "\<exists>wf. snd (load_workflows w m) = m\<lparr>db := Some (d\<lparr>workflows := wf\<rparr>)\<rparr>"
    using assms st
    by (auto simp: load_workflows_def split: sum.splits option.splits body.splits intro: exI[of _ "workflows d"])
  then show ?thesis
    by (auto simp: workflows_step_def split: prod.splits sum.splits)
qed

lemma importData_chain:
  assumes "ready m \<longrightarrow> db m \<noteq> None" and "ready m \<or> open_error w = None"
    and "put_fault w ''appInfo'' (JStr ''appInfo'') = None"
  obtains d0 d4 m4 errs4 where
    "db (if ready m then m else m\<lparr>db := Some (disk w), ready := True\<rparr>) = Some d0"
    "importData w m = items_step w \<lparr>completed = True, manager = m4, errors = errs4,
                                   processedItems = 0, failedItems = 0\<rparr>"
    "ready m4" "db m4 = Some d4"
    "itemIndex m4 = JArr (case fetch_index w of Inl e \<Rightarrow> [] | Inr xs \<Rightarrow> xs)"
    "items d4 = items (if clear_fault w = None then empty_database else d0)"
proof -
  let ?m0 = "if ready m then m else m\<lparr>db := Some (disk w), ready := True\<rparr>"
  have i: "(if \<not> ready m then initDB w m else (Inr True, m)) = (Inr True, ?m0)"
    using assms(2) by (auto simp: initDB_def)
  have r0: "ready ?m0" by simp
  obtain d0 where d0: "db ?m0 = Some d0" using assms(1) by (cases "ready m") auto
  let ?dc = "if clear_fault w = None then empty_database else d0"
  obtain m1 e1 where c: "clear_step w ?m0 [] = (m1, e1)" by (cases "clear_step w ?m0 []")
  have m1: "m1 = ?m0\<lparr>db := Some ?dc\<rparr>"
    using clear_step_frame[OF r0 d0, of w "[]"] c by simp
  obtain m2 e2 where x: "index_step w m1 e1 = (m2, e2)" by (cases "index_step w m1 e1")
  have m2: "m2 = m1\<lparr>itemIndex := JArr (case fetch_index w of Inl e \<Rightarrow> [] | Inr xs \<Rightarrow> xs)\<rparr>"
    using index_step_frame[of w m1 e1] x by simp
  have d2: "db m2 = Some ?dc" by (simp add: m2 m1)
  obtain r3 m3 where a: "appinfo_step w m2 e2 = (r3, m3)" by (cases "appinfo_step w m2 e2")
  from appinfo_step_raises[of m2 w e2] d2 assms(3) a obtain e3 where r3: "r3 = Inr e3"
    by (cases r3) auto
  from appinfo_step_frame[OF d2, of w e2] a obtain ai where m3: "m3 = m2\<lparr>db := Some (?dc\<lparr>appInfo := ai\<rparr>)\<rparr>"
    by auto
  have d3: "db m3 = Some (?dc\<lparr>appInfo := ai\<rparr>)" by (simp add: m3)
  obtain m4 e4 where wf: "workflows_step w m3 e3 = (m4, e4)" by (cases "workflows_step w m3 e3")
  from workflows_step_frame[OF d3, of w e3] wf obtain wfs where
    m4: "m4 = m3\<lparr>db := Some (?dc\<lparr>appInfo := ai\<rparr>\<lparr>workflows := wfs\<rparr>)\<rparr>" by auto
  have run: "importData w m = items_step w \<lparr>completed = True, manager = m4, errors = e4,
                                   processedItems = 0, failedItems = 0\<rparr>"
    unfolding importData_def i using c x a r3 wf by simp
  show ?thesis
    by (rule that[OF d0 run, of "?dc\<lparr>appInfo := ai\<rparr>\<lparr>workflows := wfs\<rparr>"])
       (simp_all add: m4 m3 m2 m1)
qed

lemma count_one:
  assumes "p < length xs" and "P (xs ! p)" and "\<forall>q<length xs. q \<noteq> p \<longrightarrow> \<not> P (xs ! q)"
  shows "length (filter P xs) = 1"
proof -
  have "{i. i < length xs \<and> P (xs ! i)} = {p}" using assms by auto
  then show ?thesis by (simp add: length_filter_conv_card)
qed

lemma loaded_or_failed:
  "\<forall>e \<in> set xs. \<forall>err. loadItem w e \<noteq> Inl err \<Longrightarrow>
   length (loaded w xs) + length (filter (\<lambda>e. loadItem w e = Inr None) xs) = length xs"
  by (induction xs) (auto simp: loaded_Cons split: sum.splits option.splits)

text \<open>
  Claim C3: when exactly one entry of the index fails to load (its fetch fails or its
  payload is empty, unparseable or not an object) and every other entry loads and is
  accepted by the store, the run completes with \<open>processedItems = N - 1\<close> and
  \<open>failedItems = 1\<close>, its list of warnings is not empty, and the item store is the store
  as the clear step left it with the \<open>N - 1\<close> loaded records put into it. The index may
  be longer than one batch.
\<close>

theorem one_failed_item_of_n:
  assumes "ready m \<longrightarrow> db m \<noteq> None" and "ready m \<or> open_error w = None"
    and "put_fault w ''appInfo'' (JStr ''appInfo'') = None"
    and "fetch_index w = Inr idx"
    and "p < length idx" and "loadItem w (idx ! p) = Inr None"
    and "\<forall>q<length idx. q \<noteq> p \<longrightarrow> (\<exists>r. loadItem w (idx ! q) = Inr (Some r)) \<and> storable w (idx ! q)"
  shows "completed (importData w m) \<and>
         processedItems (importData w m) = length idx - 1 \<and>
         failedItems (importData w m) = 1 \<and>
         errors (importData w m) \<noteq> [] \<and>
         length (loaded w idx) = length idx - 1 \<and>
         map_option items (db (manager (importData w m)))
           = Some (put_all (keyed (loaded w idx))
                     (if clear_fault w = None then []
                      else items (if ready m then the (db m) else disk w)))"
proof -
  from importData_chain[OF assms(1,2,3)] obtain d0 d4 m4 errs4 where
    d0: "db (if ready m then m else m\<lparr>db := Some (disk w), ready := True\<rparr>) = Some d0"
    and run: "importData w m = items_step w \<lparr>completed = True, manager = m4, errors = errs4,
                                   processedItems = 0, failedItems = 0\<rparr>"
    and d4: "db m4 = Some d4"
    and ix: "itemIndex m4 = JArr (case fetch_index w of Inl e \<Rightarrow> [] | Inr xs \<Rightarrow> xs)"
    and it: "items d4 = items (if clear_fault w = None then empty_database else d0)"
    by metis
  let ?run0 = "\<lparr>completed = True, manager = m4, errors = errs4, processedItems = 0, failedItems = 0\<rparr>"
  have all: "\<forall>e \<in> set (drop 0 idx). storable w e"
  proof
    fix e assume "e \<in> set (drop 0 idx)"
    then obtain q where q: "q < length idx" "e = idx ! q" by (auto simp: in_set_conv_nth)
    show "storable w e"
    proof (cases "q = p")
      case True
      with q assms(6) show ?thesis by (simp add: storable_def)
    next
      case False
      with q assms(7) show ?thesis by simp
    qed
  qed
  have noraise: "\<forall>e \<in> set idx. \<forall>err. loadItem w e \<noteq> Inl err"
    using all by (auto simp: storable_def split: sum.splits)
  have one: "length (filter (\<lambda>e. loadItem w e = Inr None) idx) = 1"
    using assms(5,6,7) by (intro count_one[of p]) auto
  have len: "length (loaded w idx) = length idx - 1"
    using loaded_or_failed[OF noraise] one by simp
  have loop: "import_batches w idx 0 ?run0 =
      ?run0\<lparr>manager := m4\<lparr>db := Some (d4\<lparr>items := put_all (keyed (loaded w idx)) (items d4)\<rparr>)\<rparr>,
             processedItems := length idx - 1, failedItems := 1\<rparr>"
    using import_batches_storable[OF all, of ?run0 d4] d4 by (simp add: one len)
  have step: "items_step w ?run0 =
      ?run0\<lparr>manager := m4\<lparr>db := Some (d4\<lparr>items := put_all (keyed (loaded w idx)) (items d4)\<rparr>)\<rparr>,
             processedItems := length idx - 1, failedItems := 1,
             errors := errs4 @ [ItemsFailed 1]\<rparr>"
  proof -
    from assms(5) have "idx \<noteq> []" by auto
    then show ?thesis by (simp add: items_step_def ix assms(4) loop Let_def)
  qed
  have d0': "d0 = (if ready m then the (db m) else disk w)"
    using d0 by (cases "ready m") auto
  show ?thesis
    unfolding run step
    by (simp add: len it empty_database_def d0')
qed

lemma demo_index:
  "fetch_index demo_world = Inr
     [JObj [(''id'', JStr ''a''), (''workflowId'', JStr ''w1''), (''itemName'', JStr ''load'')],
      JObj [(''id'', JStr ''b''), (''workflowId'', JStr ''w1''), (''itemName'', JStr ''plot'')]]"
  by (simp add: fetch_index_def demo_world_def demo_fetch_def fetchWithRetry_def
      fetchWithRetry_from.simps ok_def)

lemma demo_item_a:
  "loadItem demo_world (JObj [(''id'', JStr ''a''), (''workflowId'', JStr ''w1''), (''itemName'', JStr ''load'')])
     = Inr (Some (JObj [(''uniqueId'', JStr ''a''), (''workflowId'', JStr ''w1''),
                        (''itemName'', JStr ''load''), (''timestamp'', JStr ''2024-06-01T12:00:00.000Z''),
                        (''data'', JObj [(''v'', JNum ''1'')]), (''settings'', JObj []),
                        (''name'', JUndef), (''type'', JUndef)]))"
  by (simp add: loadItem_def item_record_def js_or_def demo_world_def demo_fetch_def fetchWithRetry_def
      fetchWithRetry_from.simps ok_def)

lemma demo_item_b:
  "loadItem demo_world (JObj [(''id'', JStr ''b''), (''workflowId'', JStr ''w1''), (''itemName'', JStr ''plot'')])
     = Inr None"
  by (simp add: loadItem_def demo_world_def demo_fetch_def fetchWithRetry_def
      fetchWithRetry_from.simps ok_def)

theorem one_failed_item_of_n_witness:
  "completed (importData demo_world new_DBManager) \<and>
   processedItems (importData demo_world new_DBManager) = 1 \<and>
   failedItems (importData demo_world new_DBManager) = 1 \<and>
   errors (importData demo_world new_DBManager) \<noteq> [] \<and>
   map_option items (db (manager (importData demo_world new_DBManager)))
     = Some [(JStr ''a'', JObj [(''uniqueId'', JStr ''a''), (''workflowId'', JStr ''w1''),
                        (''itemName'', JStr ''load''), (''timestamp'', JStr ''2024-06-01T12:00:00.000Z''),
                        (''data'', JObj [(''v'', JNum ''1'')]), (''settings'', JObj []),
                        (''name'', JUndef), (''type'', JUndef)])]"
proof -
  let ?a = "JObj [(''id'', JStr ''a''), (''workflowId'', JStr ''w1''), (''itemName'', JStr ''load'')]"
  let ?b = "JObj [(''id'', JStr ''b''), (''workflowId'', JStr ''w1''), (''itemName'', JStr ''plot'')]"
  have h1: "ready new_DBManager \<longrightarrow> db new_DBManager \<noteq> None"
    and h2: "ready new_DBManager \<or> open_error demo_world = None"
    and h3: "put_fault demo_world ''appInfo'' (JStr ''appInfo'') = None"
    by (simp_all add: new_DBManager_def demo_world_def)
  have h5: "(1::nat) < length [?a, ?b]" by simp
  have h6: "loadItem demo_world ([?a, ?b] ! 1) = Inr None" by (simp add: demo_item_b)
  have h7: "\<forall>q<length [?a, ?b]. q \<noteq> 1 \<longrightarrow>
              (\<exists>r. loadItem demo_world ([?a, ?b] ! q) = Inr (Some r)) \<and> storable demo_world ([?a, ?b] ! q)"
  proof (intro allI impI)
    fix q :: nat assume "q < length [?a, ?b]" "q \<noteq> 1"
    then have "q = 0" by simp
    then show "(\<exists>r. loadItem demo_world ([?a, ?b] ! q) = Inr (Some r)) \<and> storable demo_world ([?a, ?b] ! q)"
      by (simp add: demo_item_a storable_def) (simp add: demo_world_def)
  qed
  have c: "clear_fault demo_world = None" by (simp add: demo_world_def)
  from one_failed_item_of_n [OF h1 h2 h3 demo_index h5 h6 h7]
  show ?thesis by (simp add: c loaded_Cons demo_item_a demo_item_b keyed_def)
qed

section \<open>The import run: stored items\<close>

text \<open>The equations that evaluate a run on the example inputs.\<close>

lemmas demo_eval =
  importData_def initDB_def clear_step_def clearDatabase_def index_step_def fetch_index_def
  appinfo_step_def fetch_appInfo_def storeAppInfo_def appInfo_record_def workflows_step_def
  load_workflows_def normalize_workflows_def workflowId_of_def is_workflow_def set_prop_def
  storeWorkflows_def workflow_puts_def workflow_record_def item_summary_def items_step_def
  import_batches.simps storeItemBatch_def loadItem_def item_record_def put_items_def keyed_def
  js_or_def nullish_def List.map_filter_simps Let_def
  fetchWithRetry_def fetchWithRetry_from.simps ok_def
  demo_world_def demo_world_later_def demo_fetch_def new_DBManager_def empty_database_def

lemma loadItem_item_for:
  assumes "loadItem w e = Inr (Some r)"
  shows "item_for w (field e ''id'') r"
proof -
  from assms obtain idText resp payload where
    t: "to_string (field e ''id'') = Some idText"
    and f: "outcome (fetchWithRetry (fetch w) (''./data/items/'' @ idText @ ''.json'') 2) = Inr (Some resp)"
    and b: "body resp = Json payload"
    and o: "truthy payload" "typeof_object payload"
    and r: "r = item_record w e payload"
    by (auto simp: loadItem_def split: if_splits option.splits sum.splits body.splits)
  from o have "payload \<noteq> JUndef" by auto
  with t f b show ?thesis
    by (simp add: item_for_def payload_of_def r item_record_def)
qed

lemma keyed_loaded_item_for:
  assumes "(k, r) \<in> set (keyed (loaded w xs))"
  shows "item_for w k r"
proof -
  from assms have k: "k = field r ''uniqueId''" and "r \<in> set (loaded w xs)"
    by (auto simp: keyed_def)
  then obtain e where "loadItem w e = Inr (Some r)" by (auto simp: loaded_mem)
  from loadItem_item_for[OF this] show ?thesis by (simp add: item_for_def k)
qed

lemma put_all_keeps_item:
  assumes "\<forall>(k', r') \<in> set L. item_for w k' r'"
    and "\<exists>r. map_of st k = Some r \<and> item_for w k r"
  shows "\<exists>r. map_of (put_all L st) k = Some r \<and> item_for w k r"
proof (cases "map_of (rev L) k")
  case None
  with assms(2) show ?thesis by (simp add: map_of_put_all map_add_def)
next
  case (Some r)
  then have "(k, r) \<in> set L" by (auto dest: map_of_SomeD)
  with assms(1) Some show ?thesis by (auto simp: map_of_put_all map_add_def)
qed

lemma same_batch:
  assumes "i mod 5 = 0" and "i \<le> p" and "p < i + 5" and "j < 5"
  shows "(i + j) div 5 = p div (5::nat)"
proof -
  from assms(1) obtain c where c: "i = 5 * c" by (auto simp: mod_eq_0_iff_dvd)
  from assms(2,3) obtain t where t: "p = i + t" "t < 5" by (metis le_Suc_ex nat_add_left_cancel_less)
  show ?thesis using assms(4) t by (simp add: c)
qed

lemma put_all_adds_item:
  assumes "\<forall>(k', r') \<in> set L. item_for w k' r'" and "(k, r0) \<in> set L"
  shows "\<exists>r. map_of (put_all L st) k = Some r \<and> item_for w k r"
proof -
  from assms(2) have "k \<in> fst ` set (rev L)" by force
  then have "map_of (rev L) k \<noteq> None" by (simp add: map_of_eq_None_iff)
  then obtain r where s: "map_of (rev L) k = Some r" by blast
  then have "(k, r) \<in> set L" by (auto dest: map_of_SomeD)
  with assms(1) s show ?thesis by (auto simp: map_of_put_all map_add_def)
qed

lemma import_batches_keeps_item:
  assumes "db (manager run) = Some d" and "\<exists>r. map_of (items d) k = Some r \<and> item_for w k r"
  shows "\<exists>d'. manager (import_batches w idx i run) = (manager run)\<lparr>db := Some d'\<rparr> \<and>
              (\<exists>r. map_of (items d') k = Some r \<and> item_for w k r)"
proof -
  from import_batches_effect[of w i idx] obtain L e p f where
    s: "set L \<subseteq> set (keyed (loaded w (drop i idx)))"
    and eq: "\<And>run d. db (manager run) = Some d \<Longrightarrow>
        import_batches w idx i run =
          run\<lparr>manager := (manager run)\<lparr>db := Some (d\<lparr>items := put_all L (items d)\<rparr>)\<rparr>,
              errors := errors run @ e,
              processedItems := processedItems run + p,
              failedItems := failedItems run + f\<rparr>"
    by blast
  have wf: "\<forall>(k', r') \<in> set L. item_for w k' r'"
    using s by (auto dest: keyed_loaded_item_for)
  from put_all_keeps_item[OF wf assms(2)] show ?thesis
    by (auto simp: eq[OF assms(1)] intro!: exI[of _ "d\<lparr>items := put_all L (items d)\<rparr>"])
qed

lemma import_batches_stores_item:
  assumes "i mod 5 = 0" and "i \<le> p" and "p < length idx"
    and "db (manager run) = Some d"
    and "loadItem w (idx ! p) = Inr (Some r)"
    and "\<forall>q<length idx. q div 5 = p div 5 \<longrightarrow> storable w (idx ! q)"
  shows "\<exists>d'. manager (import_batches w idx i run) = (manager run)\<lparr>db := Some d'\<rparr> \<and>
              (\<exists>r'. map_of (items d') (field (idx ! p) ''id'') = Some r' \<and>
                     item_for w (field (idx ! p) ''id'') r')"
  using assms
proof (induction w idx i run arbitrary: d rule: import_batches.induct)
  case (1 w idx i run)
  let ?b = "take 5 (drop i idx)"
  let ?k = "field (idx ! p) ''id''"
  from "1.prems" have lt: "i < length idx" by simp
  show ?case
  proof (cases "p < i + 5")
    case True
    have sb: "\<forall>e \<in> set ?b. storable w e"
    proof
      fix e assume "e \<in> set ?b"
      then obtain j where j: "j < length ?b" "e = ?b ! j" by (auto simp: in_set_conv_nth)
      then have jj: "j < 5" "i + j < length idx" by auto
      have e: "e = idx ! (i + j)" using j jj by simp
      from "1.prems"(1,2) True jj have "(i + j) div 5 = p div 5"
        by (intro same_batch) auto
      with "1.prems"(6) jj e show "storable w e" by simp
    qed
    let ?d' = "d\<lparr>items := put_all (keyed (loaded w ?b)) (items d)\<rparr>"
    let ?m' = "(manager run)\<lparr>db := Some ?d'\<rparr>"
    let ?t = "\<lparr>succeeded = length (loaded w ?b), failed = length (filter (\<lambda>e. loadItem w e = Inr None) ?b)\<rparr>"
    let ?run' = "run\<lparr>manager := ?m', processedItems := processedItems run + succeeded ?t,
                     failedItems := failedItems run + failed ?t\<rparr>"
    have sib: "storeItemBatch w ?b (manager run) = (Inr ?t, ?m')"
      by (rule storeItemBatch_storable[OF sb "1.prems"(4)])
    have inb: "idx ! p \<in> set ?b"
    proof -
      have "p - i < length ?b" using "1.prems"(2,3) True by (simp add: min_def) arith
      moreover have "?b ! (p - i) = idx ! p" using "1.prems"(2,3) True by simp
      ultimately show ?thesis by (metis nth_mem)
    qed
    have "r \<in> set (loaded w ?b)" using inb "1.prems"(5) by (auto simp: loaded_mem)
    moreover have "field r ''uniqueId'' = ?k"
      using loadItem_item_for[OF "1.prems"(5)] by (simp add: item_for_def)
    ultimately have mem: "(?k, r) \<in> set (keyed (loaded w ?b))" by (force simp: keyed_def)
    have wf: "\<forall>(k', r') \<in> set (keyed (loaded w ?b)). item_for w k' r'"
      by (auto dest: keyed_loaded_item_for)
    from put_all_adds_item[OF wf mem, of "items d"]
    have here: "\<exists>r'. map_of (items ?d') ?k = Some r' \<and> item_for w ?k r'" by simp
    have dr: "db (manager ?run') = Some ?d'" by simp
    from import_batches_keeps_item[OF dr here, of idx "i + 5"]
    obtain d'' where "manager (import_batches w idx (i + 5) ?run') = (manager ?run')\<lparr>db := Some d''\<rparr>"
      and "\<exists>r'. map_of (items d'') ?k = Some r' \<and> item_for w ?k r'" by blast
    then show ?thesis
      by (subst import_batches.simps) (auto simp: lt Let_def sib intro!: exI[of _ d''])
  next
    case False
    from storeItemBatch_effect[of w ?b] obtain res L where
      eq: "storeItemBatch w ?b (manager run) = (res, (manager run)\<lparr>db := Some (d\<lparr>items := put_all L (items d)\<rparr>)\<rparr>)"
      using "1.prems"(4) by blast
    let ?d1 = "d\<lparr>items := put_all L (items d)\<rparr>"
    let ?m1 = "(manager run)\<lparr>db := Some ?d1\<rparr>"
    have i5: "(i + 5) mod 5 = 0" "i + 5 \<le> p" using "1.prems"(1) False by auto
    show ?thesis
    proof (cases res)
      case (Inl err)
      let ?run' = "run\<lparr>manager := ?m1, errors := errors run @ [BatchFailed i (i + 5) err],
                        failedItems := failedItems run + length ?b\<rparr>"
      have dr: "db (manager ?run') = Some ?d1" by simp
      from "1.IH"(1)[OF lt refl eq[symmetric] Inl i5 "1.prems"(3) dr "1.prems"(5,6)]
      obtain d' where "manager (import_batches w idx (i + 5) ?run') = (manager ?run')\<lparr>db := Some d'\<rparr>"
        and "\<exists>r'. map_of (items d') ?k = Some r' \<and> item_for w ?k r'" by blast
      then show ?thesis
        by (subst import_batches.simps) (auto simp: lt Let_def eq Inl intro!: exI[of _ d'])
    next
      case (Inr t)
      let ?run' = "run\<lparr>manager := ?m1, processedItems := processedItems run + succeeded t,
                     failedItems := failedItems run + failed t\<rparr>"
      have dr: "db (manager ?run') = Some ?d1" by simp
      from "1.IH"(2)[OF lt refl eq[symmetric] Inr i5 "1.prems"(3) dr "1.prems"(5,6)]
      obtain d' where "manager (import_batches w idx (i + 5) ?run') = (manager ?run')\<lparr>db := Some d'\<rparr>"
        and "\<exists>r'. map_of (items d') ?k = Some r' \<and> item_for w ?k r'" by blast
      then show ?thesis
        by (subst import_batches.simps) (auto simp: lt Let_def eq Inr intro!: exI[of _ d'])
    qed
  qed
qed

lemma manager_items_step:
  "itemIndex (manager run) = JArr idx \<Longrightarrow> idx \<noteq> [] \<Longrightarrow>
   manager (items_step w run) = manager (import_batches w idx 0 run)"
  by (simp add: items_step_def Let_def)

text \<open>
  When the transaction of an item's batch commits, the item is found after the run: if
  the item loads and every entry of its batch of five is storable, \<^verbatim>\<open>getResult\<close> with its
  id returns a record whose \<^verbatim>\<open>uniqueId\<close> is that id and whose \<^verbatim>\<open>data\<close> is defined, namely
  the \<^verbatim>\<open>data\<close> field of the fetched payload, or the payload itself when it has no such
  field.
\<close>

lemma committed_item_is_found:
  assumes "ready m \<longrightarrow> db m \<noteq> None" and "ready m \<or> open_error w = None"
    and "put_fault w ''appInfo'' (JStr ''appInfo'') = None"
    and "read_fault w ''items'' = None"
    and "fetch_index w = Inr idx"
    and "p < length idx" and "loadItem w (idx ! p) = Inr (Some r)"
    and "\<forall>q<length idx. q div 5 = p div 5 \<longrightarrow> storable w (idx ! q)"
  shows "\<exists>r'. getResult w (field (idx ! p) ''id'') (manager (importData w m)) = Inr r' \<and>
              item_for w (field (idx ! p) ''id'') r'"
proof -
  let ?k = "field (idx ! p) ''id''"
  from importData_chain[OF assms(1,2,3)] obtain d0 d4 m4 errs4 where
    run: "importData w m = items_step w \<lparr>completed = True, manager = m4, errors = errs4,
                                   processedItems = 0, failedItems = 0\<rparr>"
    and r4: "ready m4" and d4: "db m4 = Some d4"
    and ix: "itemIndex m4 = JArr (case fetch_index w of Inl e \<Rightarrow> [] | Inr xs \<Rightarrow> xs)"
    by metis
  let ?run0 = "\<lparr>completed = True, manager = m4, errors = errs4, processedItems = 0, failedItems = 0\<rparr>"
  from assms(6) have ne: "idx \<noteq> []" by auto
  have mg: "manager (importData w m) = manager (import_batches w idx 0 ?run0)"
    unfolding run by (rule manager_items_step) (simp_all add: ix assms(5) ne)
  have d4': "db (manager ?run0) = Some d4" by (simp add: d4)
  from import_batches_stores_item[of 0 p idx ?run0 d4 w r, OF _ _ assms(6) d4' assms(7,8)]
  obtain d' r' where m': "manager (import_batches w idx 0 ?run0) = m4\<lparr>db := Some d'\<rparr>"
    and f: "map_of (items d') ?k = Some r'" and wf: "item_for w ?k r'"
    by auto
  have "storable w (idx ! p)" using assms(6,8) by simp
  with assms(7) have "valid_key (field r ''uniqueId'')" by (simp add: storable_def)
  moreover have "field r ''uniqueId'' = ?k"
    using loadItem_item_for[OF assms(7)] by (simp add: item_for_def)
  ultimately have vk: "valid_key ?k" by simp
  have "getResult w ?k (manager (importData w m)) = Inr r'"
    by (simp add: mg m' getResult_def r4 vk assms(4) f)
  with wf show ?thesis by blast
qed

lemma committed_item_is_found_demo:
  "\<exists>r'. getResult demo_world (JStr ''a'') (manager (importData demo_world new_DBManager)) = Inr r' \<and>
        field r' ''uniqueId'' = JStr ''a'' \<and>
        field r' ''data'' = JObj [(''v'', JNum ''1'')]"
proof -
  let ?a = "JObj [(''id'', JStr ''a''), (''workflowId'', JStr ''w1''), (''itemName'', JStr ''load'')]"
  let ?b = "JObj [(''id'', JStr ''b''), (''workflowId'', JStr ''w1''), (''itemName'', JStr ''plot'')]"
  have h1: "ready new_DBManager \<longrightarrow> db new_DBManager \<noteq> None"
    and h2: "ready new_DBManager \<or> open_error demo_world = None"
    and h3: "put_fault demo_world ''appInfo'' (JStr ''appInfo'') = None"
    and h4: "read_fault demo_world ''items'' = None"
    by (simp_all add: new_DBManager_def demo_world_def)
  have h6: "(0::nat) < length [?a, ?b]" by simp
  have h7: "loadItem demo_world ([?a, ?b] ! 0) = Inr (Some (JObj [(''uniqueId'', JStr ''a''), (''workflowId'', JStr ''w1''),
                  (''itemName'', JStr ''load''), (''timestamp'', JStr ''2024-06-01T12:00:00.000Z''),
                  (''data'', JObj [(''v'', JNum ''1'')]), (''settings'', JObj []),
                  (''name'', JUndef), (''type'', JUndef)]))"
    by (simp add: demo_item_a)
  have h8: "\<forall>q<length [?a, ?b]. q div 5 = 0 div 5 \<longrightarrow> storable demo_world ([?a, ?b] ! q)"
  proof (intro allI impI)
    fix q :: nat assume "q < length [?a, ?b]"
    then have "q = 0 \<or> q = 1" by auto
    then show "storable demo_world ([?a, ?b] ! q)"
      by (auto simp: demo_item_a demo_item_b storable_def) (simp add: demo_world_def)
  qed
  from committed_item_is_found [OF h1 h2 h3 h4 demo_index h6 h7 h8]
  obtain r' where g: "getResult demo_world (JStr ''a'') (manager (importData demo_world new_DBManager)) = Inr r'"
    and i: "item_for demo_world (JStr ''a'') r'" by auto
  have "payload_of demo_world (JStr ''a'') = Some (JObj [(''data'', JObj [(''v'', JNum ''1'')])])"
    by (simp add: payload_of_def demo_world_def demo_fetch_def fetchWithRetry_def
        fetchWithRetry_from.simps ok_def)
  with i have "field r' ''uniqueId'' = JStr ''a'' \<and> field r' ''data'' = JObj [(''v'', JNum ''1'')]"
    by (simp add: item_for_def)
  with g show ?thesis by blast
qed

text \<open>
  Claim C5: every item that an import run counts as imported is returned afterwards by
  \<^verbatim>\<open>getResult\<close> with its id, as a record whose \<^verbatim>\<open>uniqueId\<close> is that id and whose \<^verbatim>\<open>data\<close> is
  defined. The code misses this when the storage engine refuses the last put of a batch.
  The handler of the refused request calls \<^verbatim>\<open>checkDone\<close>, which resolves the batch with
  the earlier puts counted as stored (its message: \<^verbatim>\<open>Stored 1 items, but 1 failed to store\<close>);
  the error event, which no handler cancels, then aborts the transaction and undoes those
  puts. On the dataset of two items \<^verbatim>\<open>a\<close> and \<^verbatim>\<open>b\<close>, both served, with the put of \<^verbatim>\<open>b\<close>
  refused: both items load, the put of \<^verbatim>\<open>a\<close> is accepted, the run completes with one item
  processed and one failed, and \<^verbatim>\<open>getResult\<close> of \<^verbatim>\<open>a\<close> returns \<^verbatim>\<open>undefined\<close>.
\<close>

theorem counted_item_is_not_found:
  "loaded refusing_world
     [JObj [(''id'', JStr ''a''), (''workflowId'', JStr ''w1''), (''itemName'', JStr ''load'')],
      JObj [(''id'', JStr ''b''), (''workflowId'', JStr ''w1''), (''itemName'', JStr ''plot'')]]
     = [JObj [(''uniqueId'', JStr ''a''), (''workflowId'', JStr ''w1''),
              (''itemName'', JStr ''load''), (''timestamp'', JStr ''2024-06-01T12:00:00.000Z''),
              (''data'', JObj [(''v'', JNum ''1'')]), (''settings'', JObj []),
              (''name'', JUndef), (''type'', JUndef)],
        JObj [(''uniqueId'', JStr ''b''), (''workflowId'', JStr ''w1''),
              (''itemName'', JStr ''plot''), (''timestamp'', JStr ''2024-06-01T12:00:00.000Z''),
              (''data'', JObj [(''v'', JNum ''2'')]), (''settings'', JObj []),
              (''name'', JUndef), (''type'', JUndef)]] \<and>
   put_fault refusing_world ''items'' (JStr ''a'') = None \<and>
   put_fault refusing_world ''items'' (JStr ''b'') = Some ''QuotaExceededError'' \<and>
   completed (importData refusing_world new_DBManager) \<and>
   processedItems (importData refusing_world new_DBManager) = 1 \<and>
   failedItems (importData refusing_world new_DBManager) = 1 \<and>
   errors (importData refusing_world new_DBManager) = [ItemsFailed 1] \<and>
   getResult refusing_world (JStr ''a'') (manager (importData refusing_world new_DBManager)) = Inr JUndef"
  by (simp add: demo_eval loaded_def refusing_world_def getResult_def)

section \<open>The import run: a second run\<close>

lemma storeAppInfo_result:
  "db m = Some d \<Longrightarrow> \<not> nullish a \<Longrightarrow> put_fault w ''appInfo'' (JStr ''appInfo'') = None \<Longrightarrow>
   storeAppInfo w a m = (Inr (), m\<lparr>db := Some (d\<lparr>appInfo := put_all [(JStr ''appInfo'', appInfo_record w a)] (appInfo d)\<rparr>)\<rparr>)"
  by (simp add: storeAppInfo_def)

lemma appinfo_step_effect:
  assumes "put_fault w ''appInfo'' (JStr ''appInfo'') = None"
  shows "\<exists>La. \<forall>m d errs. db m = Some d \<longrightarrow>
           snd (appinfo_step w m errs) = m\<lparr>db := Some (d\<lparr>appInfo := put_all La (appInfo d)\<rparr>)\<rparr>"
proof (cases "\<exists>a. fetch_appInfo w = Inr a \<and> \<not> nullish a")
  case True
  then obtain a where a: "fetch_appInfo w = Inr a" "\<not> nullish a" by blast
  show ?thesis
    by (rule exI[of _ "[(JStr ''appInfo'', appInfo_record w a)]"])
       (simp add: appinfo_step_def a storeAppInfo_result[OF _ a(2) assms])
next
  case False
  have "\<forall>m d errs. db m = Some d \<longrightarrow>
           snd (appinfo_step w m errs) =
             m\<lparr>db := Some (d\<lparr>appInfo := put_all [(JStr ''appInfo'', appInfo_record w (fallback_appInfo w))] (appInfo d)\<rparr>)\<rparr>"
  proof (intro allI impI)
    fix m :: dbmanager and d :: database and errs :: "warning list"
    assume d: "db m = Some d"
    have first: "\<exists>e. (case fetch_appInfo w of Inl e \<Rightarrow> (Inl e, m) | Inr a \<Rightarrow> storeAppInfo w a m) = (Inl e, m)"
    proof (cases "fetch_appInfo w")
      case (Inl e)
      then show ?thesis by simp
    next
      case (Inr a)
      with False have "nullish a" by simp
      with Inr d show ?thesis by (simp add: storeAppInfo_def)
    qed
    then obtain e where e: "(case fetch_appInfo w of Inl e \<Rightarrow> (Inl e, m) | Inr a \<Rightarrow> storeAppInfo w a m) = (Inl e, m)"
      by blast
    show "snd (appinfo_step w m errs) =
             m\<lparr>db := Some (d\<lparr>appInfo := put_all [(JStr ''appInfo'', appInfo_record w (fallback_appInfo w))] (appInfo d)\<rparr>)\<rparr>"
      by (simp add: appinfo_step_def e storeAppInfo_result[OF d _ assms])
  qed
  then show ?thesis by blast
qed

lemma appinfo_step_fault:
  assumes "put_fault w ''appInfo'' (JStr ''appInfo'') \<noteq> None" and "db m = Some d"
  shows "snd (appinfo_step w m errs) = m"
  using assms
  by (auto simp: appinfo_step_def storeAppInfo_def split: sum.splits option.splits prod.splits)

lemma storeWorkflows_effect:
  "\<exists>L. \<forall>m d. db m = Some d \<longrightarrow>
         snd (storeWorkflows w v m) = m\<lparr>db := Some (d\<lparr>workflows := put_all L (workflows d)\<rparr>)\<rparr>"
proof (cases "\<exists>entries. v = JObj entries \<and> first_fault (put_fault w ''workflows'') (map fst (workflow_puts entries)) = None")
  case True
  then obtain entries where "v = JObj entries"
    "first_fault (put_fault w ''workflows'') (map fst (workflow_puts entries)) = None" by blast
  then show ?thesis
    by (intro exI[of _ "workflow_puts entries"]) (simp add: storeWorkflows_def)
next
  case False
  then show ?thesis
    by (intro exI[of _ "[]"]) (auto simp: storeWorkflows_def split: js.splits option.splits)
qed

lemma load_workflows_effect:
  "\<exists>L. \<forall>m d. db m = Some d \<longrightarrow>
         snd (load_workflows w m) = m\<lparr>db := Some (d\<lparr>workflows := put_all L (workflows d)\<rparr>)\<rparr>"
proof (cases "\<exists>r v vw. outcome (fetchWithRetry (fetch w) ''./data/workflows.json'' 3) = Inr (Some r) \<and> ok r \<and>
                 body r = Json v \<and> normalize_workflows v = Inr vw")
  case True
  then obtain r v vw where h: "outcome (fetchWithRetry (fetch w) ''./data/workflows.json'' 3) = Inr (Some r)"
    "ok r" "body r = Json v" "normalize_workflows v = Inr vw" by blast
  from storeWorkflows_effect[of w "JObj vw"] obtain L where
    "\<forall>m d. db m = Some d \<longrightarrow>
         snd (storeWorkflows w (JObj vw) m) = m\<lparr>db := Some (d\<lparr>workflows := put_all L (workflows d)\<rparr>)\<rparr>" by blast
  then show ?thesis
    by (intro exI[of _ L]) (simp add: load_workflows_def h)
next
  case False
  then show ?thesis
    by (intro exI[of _ "[]"]) (auto simp: load_workflows_def split: sum.splits option.splits body.splits)
qed

lemma workflows_step_effect:
  "\<exists>L. \<forall>m d errs. db m = Some d \<longrightarrow>
         fst (workflows_step w m errs) = m\<lparr>db := Some (d\<lparr>workflows := put_all L (workflows d)\<rparr>)\<rparr>"
proof -
  from load_workflows_effect[of w] obtain L where
    L: "\<And>m d. db m = Some d \<Longrightarrow>
         snd (load_workflows w m) = m\<lparr>db := Some (d\<lparr>workflows := put_all L (workflows d)\<rparr>)\<rparr>" by blast
  have "\<forall>m d errs. db m = Some d \<longrightarrow>
         fst (workflows_step w m errs) = m\<lparr>db := Some (d\<lparr>workflows := put_all L (workflows d)\<rparr>)\<rparr>"
  proof (intro allI impI)
    fix m :: dbmanager and d :: database and errs :: "warning list"
    assume "db m = Some d"
    from L[OF this] show "fst (workflows_step w m errs) = m\<lparr>db := Some (d\<lparr>workflows := put_all L (workflows d)\<rparr>)\<rparr>"
      by (cases "load_workflows w m") (auto simp: workflows_step_def split: sum.splits)
  qed
  then show ?thesis by blast
qed

lemma items_step_effect:
  "\<exists>L. \<forall>run d. db (manager run) = Some d \<longrightarrow> itemIndex (manager run) = JArr idx \<longrightarrow>
         manager (items_step w run) = (manager run)\<lparr>db := Some (d\<lparr>items := put_all L (items d)\<rparr>)\<rparr>"
proof (cases "idx = []")
  case True
  then show ?thesis by (intro exI[of _ "[]"]) (simp add: items_step_def)
next
  case False
  from import_batches_effect[of w 0 idx] obtain L e p f where
    eq: "\<And>run d. db (manager run) = Some d \<Longrightarrow>
        import_batches w idx 0 run =
          run\<lparr>manager := (manager run)\<lparr>db := Some (d\<lparr>items := put_all L (items d)\<rparr>)\<rparr>,
              errors := errors run @ e,
              processedItems := processedItems run + p,
              failedItems := failedItems run + f\<rparr>"
    by blast
  show ?thesis
    by (intro exI[of _ L]) (simp add: manager_items_step[OF _ False] eq)
qed

lemma importData_init:
  "\<not> ready m \<Longrightarrow> open_error w = None \<Longrightarrow>
   importData w m = importData w (m\<lparr>db := Some (disk w), ready := True\<rparr>)"
  by (simp add: importData_def initDB_def)

lemma importData_not_opened:
  "\<not> ready m \<Longrightarrow> open_error w \<noteq> None \<Longrightarrow> manager (importData w m) = m"
  by (auto simp: importData_def initDB_def)

lemma importData_effect:
  assumes "put_fault w ''appInfo'' (JStr ''appInfo'') = None"
  shows "\<exists>La Lw Li. \<forall>m d. ready m \<longrightarrow> db m = Some d \<longrightarrow>
           manager (importData w m) =
             m\<lparr>db := Some \<lparr>workflows = put_all Lw (workflows (if clear_fault w = None then empty_database else d)),
                            items = put_all Li (items (if clear_fault w = None then empty_database else d)),
                            appInfo = put_all La (appInfo (if clear_fault w = None then empty_database else d))\<rparr>,
               itemIndex := JArr (case fetch_index w of Inl e \<Rightarrow> [] | Inr xs \<Rightarrow> xs)\<rparr>"
proof -
  let ?ix = "case fetch_index w of Inl e \<Rightarrow> [] | Inr xs \<Rightarrow> xs"
  from appinfo_step_effect[OF assms] obtain La where
    La: "\<And>m d errs. db m = Some d \<Longrightarrow>
           snd (appinfo_step w m errs) = m\<lparr>db := Some (d\<lparr>appInfo := put_all La (appInfo d)\<rparr>)\<rparr>" by blast
  from workflows_step_effect[of w] obtain Lw where
    Lw: "\<And>m d errs. db m = Some d \<Longrightarrow>
         fst (workflows_step w m errs) = m\<lparr>db := Some (d\<lparr>workflows := put_all Lw (workflows d)\<rparr>)\<rparr>" by blast
  from items_step_effect[of ?ix w] obtain Li where
    Li: "\<And>run d. db (manager run) = Some d \<Longrightarrow> itemIndex (manager run) = JArr ?ix \<Longrightarrow>
         manager (items_step w run) = (manager run)\<lparr>db := Some (d\<lparr>items := put_all Li (items d)\<rparr>)\<rparr>" by blast
  have "\<forall>m d. ready m \<longrightarrow> db m = Some d \<longrightarrow>
           manager (importData w m) =
             m\<lparr>db := Some \<lparr>workflows = put_all Lw (workflows (if clear_fault w = None then empty_database else d)),
                            items = put_all Li (items (if clear_fault w = None then empty_database else d)),
                            appInfo = put_all La (appInfo (if clear_fault w = None then empty_database else d))\<rparr>,
               itemIndex := JArr ?ix\<rparr>"
  proof (intro allI impI)
    fix m :: dbmanager and d :: database
    assume r: "ready m" and d: "db m = Some d"
    let ?dc = "if clear_fault w = None then empty_database else d"
    obtain m1 e1 where c: "clear_step w m [] = (m1, e1)" by (cases "clear_step w m []")
    have m1: "m1 = m\<lparr>db := Some ?dc\<rparr>" using clear_step_frame[OF r d, of w "[]"] c by simp
    obtain m2 e2 where x: "index_step w m1 e1 = (m2, e2)" by (cases "index_step w m1 e1")
    have m2: "m2 = m1\<lparr>itemIndex := JArr ?ix\<rparr>" using index_step_frame[of w m1 e1] x by simp
    have d2: "db m2 = Some ?dc" by (simp add: m2 m1)
    obtain r3 m3 where a: "appinfo_step w m2 e2 = (r3, m3)" by (cases "appinfo_step w m2 e2")
    from appinfo_step_raises[of m2 w e2] d2 assms a obtain e3 where r3: "r3 = Inr e3"
      by (cases r3) auto
    have m3: "m3 = m2\<lparr>db := Some (?dc\<lparr>appInfo := put_all La (appInfo ?dc)\<rparr>)\<rparr>"
      using La[OF d2, of e2] a by simp
    let ?d3 = "?dc\<lparr>appInfo := put_all La (appInfo ?dc)\<rparr>"
    have d3: "db m3 = Some ?d3" by (simp add: m3)
    obtain m4 e4 where wf: "workflows_step w m3 e3 = (m4, e4)" by (cases "workflows_step w m3 e3")
    have m4: "m4 = m3\<lparr>db := Some (?d3\<lparr>workflows := put_all Lw (workflows ?d3)\<rparr>)\<rparr>"
      using Lw[OF d3, of e3] wf by simp
    let ?d4 = "?d3\<lparr>workflows := put_all Lw (workflows ?d3)\<rparr>"
    let ?run0 = "\<lparr>completed = True, manager = m4, errors = e4, processedItems = 0, failedItems = 0\<rparr>"
    have run: "importData w m = items_step w ?run0"
      unfolding importData_def using r c x a r3 wf by simp
    have d4: "db (manager ?run0) = Some ?d4" by (simp add: m4)
    have i4: "itemIndex (manager ?run0) = JArr ?ix" by (simp add: m4 m3 m2)
    show "manager (importData w m) =
             m\<lparr>db := Some \<lparr>workflows = put_all Lw (workflows ?dc),
                            items = put_all Li (items ?dc),
                            appInfo = put_all La (appInfo ?dc)\<rparr>,
               itemIndex := JArr ?ix\<rparr>"
      unfolding run Li[OF d4 i4]
      by (cases m) (simp add: m4 m3 m2 m1)
  qed
  then show ?thesis by blast
qed

lemma importData_effect_fault:
  assumes "put_fault w ''appInfo'' (JStr ''appInfo'') \<noteq> None" and "ready m" and "db m = Some d"
  shows "manager (importData w m) =
           m\<lparr>db := Some (if clear_fault w = None then empty_database else d),
             itemIndex := JArr (case fetch_index w of Inl e \<Rightarrow> [] | Inr xs \<Rightarrow> xs)\<rparr>"
proof -
  let ?ix = "case fetch_index w of Inl e \<Rightarrow> [] | Inr xs \<Rightarrow> xs"
  let ?dc = "if clear_fault w = None then empty_database else d"
  obtain m1 e1 where c: "clear_step w m [] = (m1, e1)" by (cases "clear_step w m []")
  have m1: "m1 = m\<lparr>db := Some ?dc\<rparr>" using clear_step_frame[OF assms(2,3), of w "[]"] c by simp
  obtain m2 e2 where x: "index_step w m1 e1 = (m2, e2)" by (cases "index_step w m1 e1")
  have m2: "m2 = m1\<lparr>itemIndex := JArr ?ix\<rparr>" using index_step_frame[of w m1 e1] x by simp
  have d2: "db m2 = Some ?dc" by (simp add: m2 m1)
  obtain r3 m3 where a: "appinfo_step w m2 e2 = (r3, m3)" by (cases "appinfo_step w m2 e2")
  from appinfo_step_raises[of m2 w e2] d2 assms(1) a obtain e where r3: "r3 = Inl e"
    by (cases r3) auto
  have m3: "m3 = m2" using appinfo_step_fault[OF assms(1) d2, of e2] a by simp
  show ?thesis
    unfolding importData_def using assms(2) c x a r3 by (simp add: m3 m2 m1 split: prod.splits)
qed

lemma put_all_twice: "map_of (put_all L (put_all L st)) = map_of (put_all L st)"
  by (simp add: map_of_put_all fun_eq_iff map_add_def split: option.splits)

lemma import_twice_ready:
  assumes "ready m" and "db m = Some d"
  shows "map_option contents (db (manager (importData w (manager (importData w m)))))
         = map_option contents (db (manager (importData w m)))"
proof (cases "put_fault w ''appInfo'' (JStr ''appInfo'') = None")
  case False
  let ?m' = "manager (importData w m)"
  have e1: "?m' = m\<lparr>db := Some (if clear_fault w = None then empty_database else d),
             itemIndex := JArr (case fetch_index w of Inl e \<Rightarrow> [] | Inr xs \<Rightarrow> xs)\<rparr>"
    by (rule importData_effect_fault[OF False assms])
  have r': "ready ?m'" and d': "db ?m' = Some (if clear_fault w = None then empty_database else d)"
    by (simp_all add: e1 assms)
  show ?thesis
    by (subst importData_effect_fault[OF False r' d']) (simp add: e1)
next
  case True
  from importData_effect[OF True] obtain La Lw Li where
    eff: "\<And>m d. ready m \<Longrightarrow> db m = Some d \<Longrightarrow>
           manager (importData w m) =
             m\<lparr>db := Some \<lparr>workflows = put_all Lw (workflows (if clear_fault w = None then empty_database else d)),
                            items = put_all Li (items (if clear_fault w = None then empty_database else d)),
                            appInfo = put_all La (appInfo (if clear_fault w = None then empty_database else d))\<rparr>,
               itemIndex := JArr (case fetch_index w of Inl e \<Rightarrow> [] | Inr xs \<Rightarrow> xs)\<rparr>"
    by blast
  let ?m' = "manager (importData w m)"
  let ?dc = "if clear_fault w = None then empty_database else d"
  let ?d' = "\<lparr>workflows = put_all Lw (workflows ?dc), items = put_all Li (items ?dc),
             appInfo = put_all La (appInfo ?dc)\<rparr>"
  have r': "ready ?m'" and d': "db ?m' = Some ?d'"
    by (simp_all add: eff[OF assms] assms)
  show ?thesis
    by (subst eff[OF r' d']) (simp add: eff[OF assms] contents_def put_all_twice empty_database_def)
qed

text \<open>
  Claim C6, as stated: two runs in succession on the same remote data leave the store as
  one run does. They do not when a timestamp is defaulted from the clock: the two index
  entries carry no timestamp, and the record of item \<^verbatim>\<open>a\<close> is stamped with the time of the
  run that stored it.
\<close>

theorem second_import_restamps_items:
  "fetch demo_world_later = fetch demo_world \<and>
   map_option items (db (manager (importData demo_world new_DBManager)))
     = Some [(JStr ''a'', JObj [(''uniqueId'', JStr ''a''), (''workflowId'', JStr ''w1''),
                        (''itemName'', JStr ''load''), (''timestamp'', JStr ''2024-06-01T12:00:00.000Z''),
                        (''data'', JObj [(''v'', JNum ''1'')]), (''settings'', JObj []),
                        (''name'', JUndef), (''type'', JUndef)])] \<and>
   map_option items (db (manager (importData demo_world_later (manager (importData demo_world new_DBManager)))))
     = Some [(JStr ''a'', JObj [(''uniqueId'', JStr ''a''), (''workflowId'', JStr ''w1''),
                        (''itemName'', JStr ''load''), (''timestamp'', JStr ''2024-06-01T12:05:00.000Z''),
                        (''data'', JObj [(''v'', JNum ''1'')]), (''settings'', JObj []),
                        (''name'', JUndef), (''type'', JUndef)])]"
  by (simp add: demo_eval)

text \<open>
  With one clock reading for both runs, the second run leaves the three collections with
  the contents that the first run left, whether or not the clear succeeds: the puts of a
  run replace what the same puts stored before.
\<close>

lemma import_twice_one_world:
  assumes "ready m \<longrightarrow> db m \<noteq> None"
  shows "map_option contents (db (manager (importData w (manager (importData w m)))))
         = map_option contents (db (manager (importData w m)))"
proof (cases "ready m")
  case True
  with assms obtain d where "db m = Some d" by auto
  from import_twice_ready[OF True this] show ?thesis .
next
  case False
  show ?thesis
  proof (cases "open_error w = None")
    case True
    have "ready (m\<lparr>db := Some (disk w), ready := True\<rparr>)"
      and "db (m\<lparr>db := Some (disk w), ready := True\<rparr>) = Some (disk w)" by simp_all
    from import_twice_ready[OF this] show ?thesis
      by (simp add: importData_init[OF False True])
  next
    case f: False
    show ?thesis by (simp add: importData_not_opened[OF False f])
  qed
qed

text \<open>
  Clear before import: a run whose clear succeeds leaves a database that does not depend
  on what the store held, so a second run leaves what it would have left on its own,
  whatever the first run fetched, stored or read from the clock.
\<close>

lemma importData_stays_open:
  assumes "ready m" and "db m = Some d"
  shows "ready (manager (importData w m)) \<and> (\<exists>d'. db (manager (importData w m)) = Some d')"
proof (cases "put_fault w ''appInfo'' (JStr ''appInfo'') = None")
  case True
  from importData_effect[OF True] assms show ?thesis by auto
next
  case False
  from importData_effect_fault[OF False assms] assms(1) show ?thesis by simp
qed

lemma cleared_run_forgets:
  assumes "ready m" and "db m = Some d" and "ready m'" and "db m' = Some d'"
    and "clear_fault w = None"
  shows "db (manager (importData w m)) = db (manager (importData w m'))"
proof (cases "put_fault w ''appInfo'' (JStr ''appInfo'') = None")
  case True
  from importData_effect[OF True] obtain La Lw Li where
    eff: "\<And>m d. ready m \<Longrightarrow> db m = Some d \<Longrightarrow>
         manager (importData w m) =
           m\<lparr>db := Some \<lparr>workflows = put_all Lw (workflows (if clear_fault w = None then empty_database else d)),
                          items = put_all Li (items (if clear_fault w = None then empty_database else d)),
                          appInfo = put_all La (appInfo (if clear_fault w = None then empty_database else d))\<rparr>,
             itemIndex := JArr (case fetch_index w of Inl e \<Rightarrow> [] | Inr xs \<Rightarrow> xs)\<rparr>"
    by blast
  show ?thesis by (simp add: eff[OF assms(1,2)] eff[OF assms(3,4)] assms(5))
next
  case False
  show ?thesis
    by (simp add: importData_effect_fault[OF False assms(1,2)] importData_effect_fault[OF False assms(3,4)] assms(5))
qed

lemma second_run_alone:
  assumes "ready m" and "db m = Some d" and "clear_fault w2 = None"
  shows "db (manager (importData w2 (manager (importData w1 m)))) = db (manager (importData w2 m))"
proof -
  let ?m1 = "manager (importData w1 m)"
  from importData_stays_open[OF assms(1,2), of w1] obtain d1 where
    r1: "ready ?m1" and d1: "db ?m1 = Some d1" by blast
  show ?thesis
    by (rule cleared_run_forgets[OF r1 d1 assms(1,2,3)])
qed

text \<open>
  The clear is needed for this: when it fails, what the first run stored stays in the
  store, here the record of item \<^verbatim>\<open>a\<close> under a second run that finds the network down.
\<close>

lemma failed_clear_keeps_first_run:
  "map_option items (db (manager (importData (demo_world\<lparr>fetch := always_503, clear_fault := Some ''AbortError''\<rparr>)
                                    (manager (importData demo_world new_DBManager)))))
     = Some [(JStr ''a'', JObj [(''uniqueId'', JStr ''a''), (''workflowId'', JStr ''w1''),
                        (''itemName'', JStr ''load''), (''timestamp'', JStr ''2024-06-01T12:00:00.000Z''),
                        (''data'', JObj [(''v'', JNum ''1'')]), (''settings'', JObj []),
                        (''name'', JUndef), (''type'', JUndef)])] \<and>
   map_option items (db (manager (importData (demo_world\<lparr>fetch := always_503, clear_fault := Some ''AbortError''\<rparr>)
                                    new_DBManager)))
     = Some []"
  by (simp add: demo_eval always_503_def)

text \<open>
  A run on data that carries its own timestamps does not depend on the clock: step by
  step, the run at another clock reading is the same run.
\<close>

lemma clock_initDB: "initDB (w\<lparr>clock := t\<rparr>) m = initDB w m"
  by (simp add: initDB_def split: option.splits)

lemma clock_clear_step: "clear_step (w\<lparr>clock := t\<rparr>) m errs = clear_step w m errs"
  by (simp add: clear_step_def clearDatabase_def cong: option.case_cong)

lemma clock_fetch_index: "fetch_index (w\<lparr>clock := t\<rparr>) = fetch_index w"
  by (simp add: fetch_index_def)

lemma clock_index_step: "index_step (w\<lparr>clock := t\<rparr>) m errs = index_step w m errs"
  by (simp add: index_step_def clock_fetch_index)

lemma clock_fetch_appInfo: "fetch_appInfo (w\<lparr>clock := t\<rparr>) = fetch_appInfo w"
  by (simp add: fetch_appInfo_def)

lemma clock_storeWorkflows: "storeWorkflows (w\<lparr>clock := t\<rparr>) v m = storeWorkflows w v m"
  by (simp add: storeWorkflows_def cong: option.case_cong js.case_cong)

lemma clock_workflows_step: "workflows_step (w\<lparr>clock := t\<rparr>) m errs = workflows_step w m errs"
  by (simp add: workflows_step_def load_workflows_def clock_storeWorkflows
        split: sum.splits option.splits body.splits)

lemma clock_appinfo_step:
  assumes "own_timestamps w"
  shows "appinfo_step (w\<lparr>clock := t\<rparr>) m errs = appinfo_step w m errs"
proof -
  from assms obtain a where a: "fetch_appInfo w = Inr a" "\<not> nullish a"
    "truthy (field (js_or (field a ''appInfo'') a) ''exportDate'')"
    by (auto simp: own_timestamps_def split: sum.splits)
  have r: "appInfo_record (w\<lparr>clock := t\<rparr>) a = appInfo_record w a"
    using a(3) by (simp add: appInfo_record_def Let_def js_or_def)
  show ?thesis
    using a(2)
    by (auto simp: appinfo_step_def clock_fetch_appInfo a(1) storeAppInfo_def r split: option.splits)
qed

lemma clock_loadItem:
  "truthy (field e ''timestamp'') \<Longrightarrow> loadItem (w\<lparr>clock := t\<rparr>) e = loadItem w e"
  by (simp add: loadItem_def item_record_def js_or_def
        split: sum.splits option.splits body.splits)

lemma clock_put_items: "put_items (w\<lparr>clock := t\<rparr>) rs n = put_items w rs n"
  by (simp add: put_items_def)

lemma clock_storeItemBatch:
  assumes "\<forall>e \<in> set b. truthy (field e ''timestamp'')"
  shows "storeItemBatch (w\<lparr>clock := t\<rparr>) b m = storeItemBatch w b m"
proof -
  have "map (loadItem (w\<lparr>clock := t\<rparr>)) b = map (loadItem w) b"
    using assms by (simp add: clock_loadItem)
  then show ?thesis unfolding storeItemBatch_def clock_put_items by (rule arg_cong)
qed

lemma clock_import_batches:
  assumes "\<forall>e \<in> set idx. truthy (field e ''timestamp'')"
  shows "import_batches (w\<lparr>clock := t\<rparr>) idx i run = import_batches w idx i run"
  using assms
proof (induction w idx i run rule: import_batches.induct)
  case (1 w idx i run)
  show ?case
  proof (cases "i < length idx")
    case False
    then show ?thesis by (simp add: import_batches.simps)
  next
    case True
    let ?b = "take 5 (drop i idx)"
    have "\<forall>e \<in> set ?b. truthy (field e ''timestamp'')"
      using "1.prems" by (meson in_set_dropD in_set_takeD)
    then have sb: "storeItemBatch (w\<lparr>clock := t\<rparr>) ?b (manager run) = storeItemBatch w ?b (manager run)"
      by (rule clock_storeItemBatch)
    obtain res m' where s: "storeItemBatch w ?b (manager run) = (res, m')"
      by (cases "storeItemBatch w ?b (manager run)")
    show ?thesis
    proof (cases res)
      case (Inl err)
      from "1.IH"(1)[OF True refl s[symmetric] Inl "1.prems"] show ?thesis
        by (subst import_batches.simps, subst (2) import_batches.simps)
           (simp add: True Let_def sb s Inl)
    next
      case (Inr r)
      from "1.IH"(2)[OF True refl s[symmetric] Inr "1.prems"] show ?thesis
        by (subst import_batches.simps, subst (2) import_batches.simps)
           (simp add: True Let_def sb s Inr)
    qed
  qed
qed

lemma clock_items_step:
  assumes "itemIndex (manager run) = JArr idx" and "\<forall>e \<in> set idx. truthy (field e ''timestamp'')"
  shows "items_step (w\<lparr>clock := t\<rparr>) run = items_step w run"
  by (simp add: items_step_def assms(1) clock_import_batches[OF assms(2)])

lemma appinfo_step_itemIndex: "itemIndex (snd (appinfo_step w m errs)) = itemIndex m"
  by (auto simp: appinfo_step_def storeAppInfo_def split: sum.splits option.splits prod.splits)

lemma workflows_step_itemIndex: "itemIndex (fst (workflows_step w m errs)) = itemIndex m"
  by (auto simp: workflows_step_def load_workflows_def storeWorkflows_def
           split: sum.splits option.splits prod.splits body.splits js.splits)

lemma clock_importData:
  assumes "own_timestamps w"
  shows "importData (w\<lparr>clock := t\<rparr>) m = importData w m"
proof -
  let ?ix = "case fetch_index w of Inl e \<Rightarrow> [] | Inr xs \<Rightarrow> xs"
  from assms have ts: "\<forall>e \<in> set ?ix. truthy (field e ''timestamp'')"
    by (simp add: own_timestamps_def list_all_iff)
  have it: "items_step (w\<lparr>clock := t\<rparr>) \<lparr>completed = True, manager = m4, errors = e4, processedItems = 0, failedItems = 0\<rparr>
          = items_step w \<lparr>completed = True, manager = m4, errors = e4, processedItems = 0, failedItems = 0\<rparr>"
    if "workflows_step w m3 e3 = (m4, e4)" and "appinfo_step w m2 e2 = (r3, m3)" and "index_step w m1 e1 = (m2, e2)"
    for m1 e1 m2 e2 r3 m3 e3 m4 e4
  proof -
    have "itemIndex m2 = JArr ?ix" using index_step_frame[of w m1 e1] that(3) by simp
    moreover have "itemIndex m3 = itemIndex m2" using appinfo_step_itemIndex[of w m2 e2] that(2) by simp
    moreover have "itemIndex m4 = itemIndex m3" using workflows_step_itemIndex[of w m3 e3] that(1) by simp
    ultimately show ?thesis by (intro clock_items_step[OF _ ts]) simp
  qed
  show ?thesis
    unfolding importData_def
    by (auto simp: clock_initDB clock_clear_step clock_index_step clock_appinfo_step[OF assms]
          clock_workflows_step it split: prod.splits sum.splits)
qed

text \<open>
  Claim C6, amended: a second run whose clear step succeeds leaves exactly the database
  that it leaves when it runs alone, whatever the first run fetched, stored or read from
  the clock (clear before import; the store opening in both cases or in neither). And for
  a fixed remote dataset and a fixed behaviour of the storage engine, the second run
  reading the clock at any time \<open>t\<close>, the three collections have after the second run the
  contents that the first run left when the stored records do not depend on the clock:
  the second run reads the same time, or the data carries its own timestamps.
\<close>

theorem second_import_same_contents:
  assumes "ready m \<longrightarrow> db m \<noteq> None"
  shows "(clear_fault w2 = None \<and> (ready m \<or> open_error w2 = open_error w) \<longrightarrow>
            db (manager (importData w2 (manager (importData w m))))
              = db (manager (importData w2 m))) \<and>
         (t = clock w \<or> own_timestamps w \<longrightarrow>
            map_option contents (db (manager (importData (w\<lparr>clock := t\<rparr>) (manager (importData w m)))))
              = map_option contents (db (manager (importData w m))))"
proof (intro conjI impI)
  assume "clear_fault w2 = None \<and> (ready m \<or> open_error w2 = open_error w)"
  then have c: "clear_fault w2 = None" and o: "ready m \<or> open_error w2 = open_error w" by simp_all
  show "db (manager (importData w2 (manager (importData w m)))) = db (manager (importData w2 m))"
  proof (cases "ready m")
    case True
    with assms obtain d where "db m = Some d" by auto
    from second_run_alone[OF True this c] show ?thesis .
  next
    case False
    with o have oe: "open_error w2 = open_error w" by simp
    show ?thesis
    proof (cases "open_error w = None")
      case True
      let ?m1 = "m\<lparr>db := Some (disk w), ready := True\<rparr>"
      let ?m2 = "m\<lparr>db := Some (disk w2), ready := True\<rparr>"
      have o2: "open_error w2 = None" using True oe by simp
      have r1: "ready ?m1" and d1: "db ?m1 = Some (disk w)" by simp_all
      have r2: "ready ?m2" and d2: "db ?m2 = Some (disk w2)" by simp_all
      have "db (manager (importData w2 (manager (importData w ?m1)))) = db (manager (importData w2 ?m1))"
        by (rule second_run_alone[OF r1 d1 c])
      also have "\<dots> = db (manager (importData w2 ?m2))"
        by (rule cleared_run_forgets[OF r1 d1 r2 d2 c])
      finally show ?thesis
        by (simp add: importData_init[OF False True] importData_init[OF False o2])
    next
      case f: False
      then have f2: "open_error w2 \<noteq> None" using oe by simp
      show ?thesis
        by (simp add: importData_not_opened[OF False f] importData_not_opened[OF False f2])
    qed
  qed
next
  assume "t = clock w \<or> own_timestamps w"
  then have "importData (w\<lparr>clock := t\<rparr>) = importData w"
  proof
    assume "t = clock w"
    then show ?thesis by simp
  next
    assume "own_timestamps w"
    then show ?thesis by (simp add: fun_eq_iff clock_importData)
  qed
  then show "map_option contents (db (manager (importData (w\<lparr>clock := t\<rparr>) (manager (importData w m)))))
              = map_option contents (db (manager (importData w m)))"
    by (simp add: import_twice_one_world[OF assms])
qed

theorem second_import_same_contents_witness:
  "db (manager (importData demo_world_later (manager (importData stamped_world new_DBManager))))
     = db (manager (importData demo_world_later new_DBManager)) \<and>
   map_option contents
     (db (manager (importData (stamped_world\<lparr>clock := ''2024-06-01T12:05:00.000Z''\<rparr>)
                     (manager (importData stamped_world new_DBManager)))))
     = map_option contents (db (manager (importData stamped_world new_DBManager)))"
proof -
  have h: "ready new_DBManager \<longrightarrow> db new_DBManager \<noteq> None"
    by (simp add: new_DBManager_def)
  have c: "clear_fault demo_world_later = None \<and>
           (ready new_DBManager \<or> open_error demo_world_later = open_error stamped_world)"
    by (simp add: stamped_world_def demo_world_later_def demo_world_def)
  have o: "own_timestamps stamped_world"
    by (simp add: own_timestamps_def demo_eval stamped_world_def)
  from second_import_same_contents
         [OF h, of demo_world_later stamped_world "''2024-06-01T12:05:00.000Z''"] c o
  show ?thesis by blast
qed

section \<open>The import run: workflows given as an array\<close>

lemma set_upsert: "set (upsert k v st) \<subseteq> insert (k, v) (set st)"
  by (induction st) (auto split: if_splits)

lemma map_of_set_prop:
  "map_of (set_prop key v acc) = (if key = ''__proto__'' then map_of acc else (map_of acc)(key \<mapsto> v))"
  by (simp add: set_prop_def map_of_upsert)

lemma keys_set_prop:
  "fst ` set (set_prop key v acc) = (if key = ''__proto__'' then fst ` set acc else insert key (fst ` set acc))"
  by (simp add: set_prop_def keys_upsert)

lemma is_workflow_not_nullish: "is_workflow v \<Longrightarrow> \<not> nullish v"
  by (auto simp: is_workflow_def nullish_def)

lemma is_workflow_object: "is_workflow v \<Longrightarrow> truthy v \<and> typeof_object v"
  by (cases v) (auto simp: is_workflow_def)

lemma normalize_array_succeeds:
  "(\<forall>i<length es. \<not> nullish (es ! i) \<and> workflowId_of (n + i) (es ! i) \<noteq> None) \<Longrightarrow>
   \<exists>out. normalize_array n es acc = Inr out"
proof (induction es arbitrary: n acc)
  case Nil
  then show ?case by simp
next
  case (Cons e es)
  from Cons.prems have e: "\<not> nullish e" "workflowId_of n e \<noteq> None" by force+
  have rest: "\<forall>i<length es. \<not> nullish (es ! i) \<and> workflowId_of (n + 1 + i) (es ! i) \<noteq> None"
  proof (intro allI impI)
    fix i assume "i < length es"
    with Cons.prems have "\<not> nullish ((e # es) ! Suc i) \<and> workflowId_of (n + Suc i) ((e # es) ! Suc i) \<noteq> None"
      by (metis length_Cons Suc_less_eq)
    then show "\<not> nullish (es ! i) \<and> workflowId_of (n + 1 + i) (es ! i) \<noteq> None" by simp
  qed
  from e obtain k where k: "workflowId_of n e = Some k" by auto
  show ?case
    using e k Cons.IH[OF rest] by simp
qed

lemma normalize_array_sound:
  "normalize_array n es acc = Inr out \<Longrightarrow> map_of out key = Some v \<Longrightarrow>
   map_of acc key = Some v \<or>
   (\<exists>i<length es. is_workflow (es ! i) \<and> workflowId_of (n + i) (es ! i) = Some key \<and>
                    key \<noteq> ''__proto__'' \<and> v = es ! i)"
proof (induction es arbitrary: n acc)
  case Nil
  then show ?case by simp
next
  case (Cons e es)
  from Cons.prems(1) obtain k where k: "workflowId_of n e = Some k" and nn: "\<not> nullish e"
    by (auto split: if_splits option.splits)
  let ?acc' = "if is_workflow e then set_prop k e acc else acc"
  from Cons.prems(1) k nn have r: "normalize_array (n + 1) es ?acc' = Inr out"
    by (auto split: if_splits)
  from Cons.IH[OF r Cons.prems(2)] show ?case
  proof
    assume a: "map_of ?acc' key = Some v"
    show ?thesis
    proof (cases "is_workflow e \<and> k = key \<and> key \<noteq> ''__proto__''")
      case True
      with a have "v = e" by (simp add: map_of_set_prop)
      with True k show ?thesis by (intro disjI2 exI[of _ 0]) simp
    next
      case False
      with a have "map_of acc key = Some v"
        by (auto simp: map_of_set_prop split: if_splits)
      then show ?thesis by simp
    qed
  next
    assume "\<exists>i<length es. is_workflow (es ! i) \<and> workflowId_of (n + 1 + i) (es ! i) = Some key \<and>
                    key \<noteq> ''__proto__'' \<and> v = es ! i"
    then obtain i where "i < length es" "is_workflow (es ! i)" "workflowId_of (n + 1 + i) (es ! i) = Some key"
      "key \<noteq> ''__proto__''" "v = es ! i" by blast
    then show ?thesis by (intro disjI2 exI[of _ "Suc i"]) simp
  qed
qed

lemma normalize_array_persists:
  "normalize_array n es acc = Inr out \<Longrightarrow> map_of acc key = Some v \<Longrightarrow>
   map_of out key = Some v \<or>
   (\<exists>j<length es. is_workflow (es ! j) \<and> workflowId_of (n + j) (es ! j) = Some key \<and>
                    map_of out key = Some (es ! j))"
proof (induction es arbitrary: n acc v)
  case Nil
  then show ?case by simp
next
  case (Cons e es)
  from Cons.prems(1) obtain k where k: "workflowId_of n e = Some k" and nn: "\<not> nullish e"
    by (auto split: if_splits option.splits)
  let ?acc' = "if is_workflow e then set_prop k e acc else acc"
  from Cons.prems(1) k nn have r: "normalize_array (n + 1) es ?acc' = Inr out"
    by (auto split: if_splits)
  have "\<exists>v'. map_of ?acc' key = Some v' \<and> (v' = v \<or> (is_workflow e \<and> k = key \<and> v' = e))"
    using Cons.prems(2) by (auto simp: map_of_set_prop)
  then obtain v' where v': "map_of ?acc' key = Some v'"
    and vv: "v' = v \<or> (is_workflow e \<and> k = key \<and> v' = e)" by blast
  from Cons.IH[OF r v'] show ?case
  proof
    assume o: "map_of out key = Some v'"
    from vv show ?thesis
    proof
      assume "v' = v" with o show ?thesis by simp
    next
      assume "is_workflow e \<and> k = key \<and> v' = e"
      with o k show ?thesis by (intro disjI2 exI[of _ 0]) simp
    qed
  next
    assume "\<exists>j<length es. is_workflow (es ! j) \<and> workflowId_of (n + 1 + j) (es ! j) = Some key \<and>
                    map_of out key = Some (es ! j)"
    then obtain j where "j < length es" "is_workflow (es ! j)" "workflowId_of (n + 1 + j) (es ! j) = Some key"
      "map_of out key = Some (es ! j)" by blast
    then show ?thesis by (intro disjI2 exI[of _ "Suc j"]) simp
  qed
qed

lemma normalize_array_complete:
  "normalize_array n es acc = Inr out \<Longrightarrow> i < length es \<Longrightarrow> is_workflow (es ! i) \<Longrightarrow>
   \<exists>key. workflowId_of (n + i) (es ! i) = Some key \<and>
     (key \<noteq> ''__proto__'' \<longrightarrow>
        (\<exists>j. i \<le> j \<and> j < length es \<and> is_workflow (es ! j) \<and>
             workflowId_of (n + j) (es ! j) = Some key \<and> map_of out key = Some (es ! j)))"
proof (induction es arbitrary: n acc i)
  case Nil
  then show ?case by simp
next
  case (Cons e es)
  from Cons.prems(1) obtain k where k: "workflowId_of n e = Some k" and nn: "\<not> nullish e"
    by (auto split: if_splits option.splits)
  let ?acc' = "if is_workflow e then set_prop k e acc else acc"
  from Cons.prems(1) k nn have r: "normalize_array (n + 1) es ?acc' = Inr out"
    by (auto split: if_splits)
  show ?case
  proof (cases i)
    case 0
    with Cons.prems(3) have w: "is_workflow e" by simp
    show ?thesis
    proof (intro exI[of _ k] conjI impI)
      show "workflowId_of (n + i) ((e # es) ! i) = Some k" using 0 k by simp
    next
      assume np: "k \<noteq> ''__proto__''"
      with w have "map_of ?acc' k = Some e" by (simp add: map_of_set_prop)
      from normalize_array_persists[OF r this]
      show "\<exists>j. i \<le> j \<and> j < length (e # es) \<and> is_workflow ((e # es) ! j) \<and>
             workflowId_of (n + j) ((e # es) ! j) = Some k \<and> map_of out k = Some ((e # es) ! j)"
      proof
        assume "map_of out k = Some e"
        with w k 0 show ?thesis by (intro exI[of _ 0]) simp
      next
        assume "\<exists>j<length es. is_workflow (es ! j) \<and> workflowId_of (n + 1 + j) (es ! j) = Some k \<and>
                    map_of out k = Some (es ! j)"
        then obtain j where "j < length es" "is_workflow (es ! j)" "workflowId_of (n + 1 + j) (es ! j) = Some k"
          "map_of out k = Some (es ! j)" by blast
        with 0 show ?thesis by (intro exI[of _ "Suc j"]) simp
      qed
    qed
  next
    case (Suc i')
    with Cons.prems have i': "i' < length es" "is_workflow (es ! i')" by simp_all
    from Cons.IH[OF r i'] obtain key where
      key: "workflowId_of (n + 1 + i') (es ! i') = Some key"
      and imp: "key \<noteq> ''__proto__'' \<longrightarrow>
        (\<exists>j. i' \<le> j \<and> j < length es \<and> is_workflow (es ! j) \<and>
             workflowId_of (n + 1 + j) (es ! j) = Some key \<and> map_of out key = Some (es ! j))"
      by blast
    show ?thesis
    proof (intro exI[of _ key] conjI impI)
      show "workflowId_of (n + i) ((e # es) ! i) = Some key" using Suc key by simp
    next
      assume "key \<noteq> ''__proto__''"
      with imp obtain j where "i' \<le> j" "j < length es" "is_workflow (es ! j)"
        "workflowId_of (n + 1 + j) (es ! j) = Some key" "map_of out key = Some (es ! j)" by blast
      with Suc show "\<exists>j. i \<le> j \<and> j < length (e # es) \<and> is_workflow ((e # es) ! j) \<and>
             workflowId_of (n + j) ((e # es) ! j) = Some key \<and> map_of out key = Some ((e # es) ! j)"
        by (intro exI[of _ "Suc j"]) simp
    qed
  qed
qed

lemma normalize_array_shape:
  "normalize_array n es acc = Inr out \<Longrightarrow> distinct (map fst acc) \<Longrightarrow>
   ''__proto__'' \<notin> fst ` set acc \<Longrightarrow> (\<forall>(k, v) \<in> set acc. is_workflow v) \<Longrightarrow>
   distinct (map fst out) \<and> ''__proto__'' \<notin> fst ` set out \<and> (\<forall>(k, v) \<in> set out. is_workflow v)"
proof (induction es arbitrary: n acc)
  case Nil
  then show ?case by simp
next
  case (Cons e es)
  from Cons.prems(1) obtain k where k: "workflowId_of n e = Some k" and nn: "\<not> nullish e"
    by (auto split: if_splits option.splits)
  let ?acc' = "if is_workflow e then set_prop k e acc else acc"
  from Cons.prems(1) k nn have r: "normalize_array (n + 1) es ?acc' = Inr out"
    by (auto split: if_splits)
  have d: "distinct (map fst ?acc')" using Cons.prems(2) by (simp add: set_prop_def distinct_upsert)
  have p: "''__proto__'' \<notin> fst ` set ?acc'" using Cons.prems(3) by (simp add: keys_set_prop)
  have w: "\<forall>(k, v) \<in> set ?acc'. is_workflow v"
  proof (cases "is_workflow e \<and> k \<noteq> ''__proto__''")
    case True
    have "set (upsert k e acc) \<subseteq> insert (k, e) (set acc)"
      by (rule set_upsert)
    with True Cons.prems(4) show ?thesis by (auto simp: set_prop_def)
  next
    case False
    with Cons.prems(4) show ?thesis by (auto simp: set_prop_def)
  qed
  from Cons.IH[OF r d p w] show ?case .
qed

lemma validate_entries_keeps:
  "(\<forall>(k, v) \<in> set es. is_workflow v) \<Longrightarrow> distinct (map fst es) \<Longrightarrow>
   ''__proto__'' \<notin> fst ` set es \<Longrightarrow> fst ` set es \<inter> fst ` set acc = {} \<Longrightarrow>
   validate_entries es acc = Inr (acc @ es)"
proof (induction es arbitrary: acc)
  case Nil
  then show ?case by simp
next
  case (Cons kv es)
  obtain k v where kv: "kv = (k, v)" by (cases kv)
  from Cons.prems kv have w: "is_workflow v" and np: "k \<noteq> ''__proto__''" and nk: "k \<notin> fst ` set acc"
    by auto
  have u: "set_prop k v acc = acc @ [(k, v)]" using np nk by (simp add: set_prop_def upsert_new)
  have "validate_entries es (acc @ [(k, v)]) = Inr ((acc @ [(k, v)]) @ es)"
    using Cons.prems kv by (intro Cons.IH) auto
  with w u kv show ?case by (simp add: is_workflow_not_nullish)
qed

lemma workflow_puts_all:
  "(\<forall>(k, v) \<in> set out. is_workflow v) \<Longrightarrow>
   workflow_puts out = map (\<lambda>(k, wf). (JStr k, workflow_record k wf)) out"
proof (induction out)
  case Nil
  then show ?case by (simp add: workflow_puts_def List.map_filter_simps)
next
  case (Cons kv out)
  obtain k v where kv: "kv = (k, v)" by (cases kv)
  with Cons.prems have "is_workflow v" by simp
  then have "truthy v \<and> typeof_object v" by (rule is_workflow_object)
  with Cons kv show ?case by (simp add: workflow_puts_def List.map_filter_simps)
qed

lemma map_of_workflow_records:
  "map_of (map (\<lambda>(k, wf). (JStr k, workflow_record k wf)) out) q =
     (case q of JStr key \<Rightarrow> map_option (workflow_record key) (map_of out key) | _ \<Rightarrow> None)"
  by (induction out) (auto split: js.splits)

lemma put_all_fresh:
  "distinct (map fst L) \<Longrightarrow> fst ` set L \<inter> fst ` set st = {} \<Longrightarrow> put_all L st = st @ L"
proof (induction L arbitrary: st)
  case Nil
  then show ?case by simp
next
  case (Cons kr L)
  obtain k r where kr: "kr = (k, r)" by (cases kr)
  from Cons.prems kr have nk: "k \<notin> fst ` set st" by auto
  have "put_all L (st @ [(k, r)]) = (st @ [(k, r)]) @ L"
    using Cons.prems kr by (intro Cons.IH) auto
  with nk kr show ?case by (simp add: upsert_new)
qed

lemma storeWorkflows_accepted:
  assumes "db m = Some d" and "\<forall>k. put_fault w ''workflows'' k = None"
  shows "storeWorkflows w (JObj out) m =
           (Inr (), m\<lparr>db := Some (d\<lparr>workflows := put_all (workflow_puts out) (workflows d)\<rparr>)\<rparr>)"
proof -
  have "first_fault (put_fault w ''workflows'') (map fst (workflow_puts out)) = None"
    using assms(2) by (intro first_fault_None) simp
  with assms(1) show ?thesis by (simp add: storeWorkflows_def)
qed

lemma importData_chain_workflows:
  assumes "ready m \<longrightarrow> db m \<noteq> None" and "ready m \<or> open_error w = None"
    and "put_fault w ''appInfo'' (JStr ''appInfo'') = None" and "clear_fault w = None"
  obtains m3 d3 where "db m3 = Some d3" "workflows d3 = []"
    "map_option workflows (db (manager (importData w m)))
       = map_option workflows (db (snd (load_workflows w m3)))"
proof -
  let ?m0 = "if ready m then m else m\<lparr>db := Some (disk w), ready := True\<rparr>"
  have i: "(if \<not> ready m then initDB w m else (Inr True, m)) = (Inr True, ?m0)"
    using assms(2) by (auto simp: initDB_def)
  have r0: "ready ?m0" by simp
  obtain d0 where d0: "db ?m0 = Some d0" using assms(1) by (cases "ready m") auto
  obtain m1 e1 where c: "clear_step w ?m0 [] = (m1, e1)" by (cases "clear_step w ?m0 []")
  have m1: "m1 = ?m0\<lparr>db := Some empty_database\<rparr>"
    using clear_step_frame[OF r0 d0, of w "[]"] c assms(4) by simp
  obtain m2 e2 where x: "index_step w m1 e1 = (m2, e2)" by (cases "index_step w m1 e1")
  have m2: "m2 = m1\<lparr>itemIndex := JArr (case fetch_index w of Inl e \<Rightarrow> [] | Inr xs \<Rightarrow> xs)\<rparr>"
    using index_step_frame[of w m1 e1] x by simp
  have d2: "db m2 = Some empty_database" by (simp add: m2 m1)
  obtain r3 m3 where a: "appinfo_step w m2 e2 = (r3, m3)" by (cases "appinfo_step w m2 e2")
  from appinfo_step_raises[of m2 w e2] d2 assms(3) a obtain e3 where r3: "r3 = Inr e3"
    by (cases r3) auto
  from appinfo_step_frame[OF d2, of w e2] a obtain ai where m3: "m3 = m2\<lparr>db := Some (empty_database\<lparr>appInfo := ai\<rparr>)\<rparr>"
    by auto
  have d3: "db m3 = Some (empty_database\<lparr>appInfo := ai\<rparr>)" by (simp add: m3)
  obtain m4 e4 where wf: "workflows_step w m3 e3 = (m4, e4)" by (cases "workflows_step w m3 e3")
  have m4: "m4 = snd (load_workflows w m3)"
    using wf by (cases "load_workflows w m3") (auto simp: workflows_step_def split: sum.splits)
  from workflows_step_frame[OF d3, of w e3] wf obtain wfs where
    m4': "m4 = m3\<lparr>db := Some (empty_database\<lparr>appInfo := ai\<rparr>\<lparr>workflows := wfs\<rparr>)\<rparr>" by auto
  let ?run0 = "\<lparr>completed = True, manager = m4, errors = e4, processedItems = 0, failedItems = 0\<rparr>"
  have run: "importData w m = items_step w ?run0"
    unfolding importData_def i using c x a r3 wf by simp
  from items_step_effect[of "case fetch_index w of Inl e \<Rightarrow> [] | Inr xs \<Rightarrow> xs" w] obtain L where
    L: "\<And>run d. db (manager run) = Some d \<Longrightarrow>
          itemIndex (manager run) = JArr (case fetch_index w of Inl e \<Rightarrow> [] | Inr xs \<Rightarrow> xs) \<Longrightarrow>
         manager (items_step w run) = (manager run)\<lparr>db := Some (d\<lparr>items := put_all L (items d)\<rparr>)\<rparr>"
    by blast
  have "manager (items_step w ?run0) =
          m4\<lparr>db := Some (empty_database\<lparr>appInfo := ai\<rparr>\<lparr>workflows := wfs\<rparr>\<lparr>items := put_all L (items (empty_database\<lparr>appInfo := ai\<rparr>\<lparr>workflows := wfs\<rparr>))\<rparr>)\<rparr>"
    using L[of ?run0 "empty_database\<lparr>appInfo := ai\<rparr>\<lparr>workflows := wfs\<rparr>"]
    by (simp add: m4' m3 m2)
  then have fin: "map_option workflows (db (manager (importData w m))) = Some wfs"
    by (simp add: run)
  have "snd (load_workflows w m3) = m3\<lparr>db := Some (empty_database\<lparr>appInfo := ai\<rparr>\<lparr>workflows := wfs\<rparr>)\<rparr>"
    using m4 m4' by simp
  then have lw: "map_option workflows (db (snd (load_workflows w m3))) = Some wfs"
    by simp
  show ?thesis
  proof (rule that[OF d3])
    show "workflows (empty_database\<lparr>appInfo := ai\<rparr>) = []" by (simp add: empty_database_def)
    show "map_option workflows (db (manager (importData w m)))
       = map_option workflows (db (snd (load_workflows w m3)))"
      unfolding fin lw ..
  qed
qed

text \<open>
  Claim C4, as stated: an array payload gives one stored workflow for each valid entry,
  under the entry's \<^verbatim>\<open>id\<close> or under \<^verbatim>\<open>workflow-\<close> and its index when it has no \<^verbatim>\<open>id\<close>. In
  the small dataset the second entry has no \<^verbatim>\<open>id\<close> and is stored under its \<^verbatim>\<open>workflowId\<close>,
  not under \<^verbatim>\<open>workflow-1\<close>; two valid entries with the same id give one stored workflow;
  and a \<^verbatim>\<open>null\<close> entry makes the step fail, so that the valid entry beside it is not
  stored.
\<close>

theorem array_workflows_not_one_per_entry:
  "map_option (map fst \<circ> workflows) (db (manager (importData demo_world new_DBManager)))
     = Some [JStr ''w1'', JStr ''w2''] \<and>
   map_option (map fst \<circ> workflows)
     (db (manager (importData
        (with_workflows (JArr [JObj [(''id'', JStr ''w1''), (''items'', JArr [])],
                               JObj [(''id'', JStr ''w1''), (''items'', JArr [])]]))
        new_DBManager)))
     = Some [JStr ''w1''] \<and>
   map_option (map fst \<circ> workflows)
     (db (manager (importData
        (with_workflows (JArr [JNull, JObj [(''id'', JStr ''w1''), (''items'', JArr [])]]))
        new_DBManager)))
     = Some []"
  by (simp add: demo_eval with_workflows_def)

text \<open>
  Claim C4, amended: for an array payload without \<^verbatim>\<open>null\<close> entries whose ids all have a
  string form, fetched and stored without a fault after a successful clear, every stored
  workflow comes from an entry that has an \<^verbatim>\<open>items\<close> array, is kept under that entry's key
  (the string form of its \<^verbatim>\<open>id\<close>, else of its \<^verbatim>\<open>workflowId\<close>, else \<^verbatim>\<open>workflow-\<close> and the
  index) and has an array as its \<^verbatim>\<open>items\<close>; and every entry with an \<^verbatim>\<open>items\<close> array has
  its key in the store, holding the workflow of the last such entry with that key (the
  key \<^verbatim>\<open>__proto__\<close> apart). So one workflow is stored for each distinct key, and an entry
  without an \<^verbatim>\<open>items\<close> array contributes nothing.
\<close>

theorem array_workflows_stored:
  assumes "ready m \<longrightarrow> db m \<noteq> None" and "ready m \<or> open_error w = None"
    and "put_fault w ''appInfo'' (JStr ''appInfo'') = None" and "clear_fault w = None"
    and "\<forall>k. put_fault w ''workflows'' k = None"
    and "outcome (fetchWithRetry (fetch w) ''./data/workflows.json'' 3) = Inr (Some resp)"
    and "ok resp" and "body resp = Json (JArr es)"
    and "\<forall>i<length es. \<not> nullish (es ! i) \<and> workflowId_of i (es ! i) \<noteq> None"
  shows "\<exists>S. map_option workflows (db (manager (importData w m))) = Some S \<and>
           (\<forall>k stored. map_of S k = Some stored \<longrightarrow>
              (\<exists>i<length es. \<exists>key. is_workflow (es ! i) \<and> workflowId_of i (es ! i) = Some key \<and>
                  k = JStr key \<and> stored = workflow_record key (es ! i)) \<and>
              isArray (field stored ''items'')) \<and>
           (\<forall>i<length es. is_workflow (es ! i) \<longrightarrow>
              (\<exists>key. workflowId_of i (es ! i) = Some key \<and>
                 (key \<noteq> ''__proto__'' \<longrightarrow>
                    (\<exists>j. i \<le> j \<and> j < length es \<and> is_workflow (es ! j) \<and>
                         workflowId_of j (es ! j) = Some key \<and>
                         map_of S (JStr key) = Some (workflow_record key (es ! j))))))"
proof -
  from importData_chain_workflows[OF assms(1-4)] obtain m3 d3 where
    d3: "db m3 = Some d3" and e3: "workflows d3 = []"
    and fin: "map_option workflows (db (manager (importData w m)))
       = map_option workflows (db (snd (load_workflows w m3)))" by blast
  from normalize_array_succeeds[of es 0 "[]"] assms(9) obtain out where
    out: "normalize_array 0 es [] = Inr out" by auto
  from normalize_array_shape[OF out] have
    sh: "distinct (map fst out)" "''__proto__'' \<notin> fst ` set out" "\<forall>(k, v) \<in> set out. is_workflow v"
    by simp_all
  have val: "validate_entries out [] = Inr out"
    using validate_entries_keeps[of out "[]"] sh by simp
  have nw: "normalize_workflows (JArr es) = Inr out"
    by (simp add: normalize_workflows_def out val)
  let ?S = "map (\<lambda>(k, wf). (JStr k, workflow_record k wf)) out"
  have dS: "distinct (map fst ?S)"
    using sh(1) by (simp add: distinct_map comp_def case_prod_unfold inj_on_def)
  have "load_workflows w m3 =
          (Inr (), m3\<lparr>db := Some (d3\<lparr>workflows := put_all (workflow_puts out) (workflows d3)\<rparr>)\<rparr>)"
    by (simp add: load_workflows_def assms(6,7,8) nw storeWorkflows_accepted[OF d3 assms(5)])
  then have S: "map_option workflows (db (manager (importData w m))) = Some ?S"
    using put_all_fresh[OF dS, of "[]"]
    by (simp add: fin e3 workflow_puts_all[OF sh(3)])
  have lk: "\<And>q. map_of ?S q = (case q of JStr key \<Rightarrow> map_option (workflow_record key) (map_of out key) | _ \<Rightarrow> None)"
    by (rule map_of_workflow_records)
  show ?thesis
  proof (intro exI[of _ ?S] conjI allI impI)
    show "map_option workflows (db (manager (importData w m))) = Some ?S" by (rule S)
  next
    fix k stored assume a: "map_of ?S k = Some stored"
    then obtain key v where k: "k = JStr key" and v: "map_of out key = Some v"
      and st: "stored = workflow_record key v"
      by (auto simp: lk split: js.splits)
    from normalize_array_sound[OF out v] obtain i where
      "i < length es" "is_workflow (es ! i)" "workflowId_of i (es ! i) = Some key" "v = es ! i"
      by auto
    with k st show "\<exists>i<length es. \<exists>key. is_workflow (es ! i) \<and> workflowId_of i (es ! i) = Some key \<and>
                  k = JStr key \<and> stored = workflow_record key (es ! i)"
      by blast
    show "isArray (field stored ''items'')"
      by (simp add: st workflow_record_def)
  next
    fix i assume i: "i < length es" "is_workflow (es ! i)"
    from normalize_array_complete[OF out i] obtain key where
      key: "workflowId_of i (es ! i) = Some key"
      and imp: "key \<noteq> ''__proto__'' \<longrightarrow>
        (\<exists>j. i \<le> j \<and> j < length es \<and> is_workflow (es ! j) \<and>
             workflowId_of j (es ! j) = Some key \<and> map_of out key = Some (es ! j))"
      by auto
    show "\<exists>key. workflowId_of i (es ! i) = Some key \<and>
                 (key \<noteq> ''__proto__'' \<longrightarrow>
                    (\<exists>j. i \<le> j \<and> j < length es \<and> is_workflow (es ! j) \<and>
                         workflowId_of j (es ! j) = Some key \<and>
                         map_of ?S (JStr key) = Some (workflow_record key (es ! j))))"
      using key imp by (intro exI[of _ key]) (auto simp: lk)
  qed
qed

theorem array_workflows_stored_witness:
  "\<exists>S. map_option workflows (db (manager (importData demo_world new_DBManager))) = Some S \<and>
        map_of S (JStr ''w2'')
          = Some (workflow_record ''w2'' (JObj [(''workflowId'', JStr ''w2''), (''items'', JArr [])]))"
proof -
  let ?e0 = "JObj [(''id'', JStr ''w1''), (''items'', JArr [JObj [(''uniqueId'', JStr ''a'')], JNull])]"
  let ?e1 = "JObj [(''workflowId'', JStr ''w2''), (''items'', JArr [])]"
  let ?e2 = "JObj [(''id'', JStr ''w3'')]"
  let ?es = "[?e0, ?e1, ?e2]"
  have h1: "ready new_DBManager \<longrightarrow> db new_DBManager \<noteq> None"
    and h2: "ready new_DBManager \<or> open_error demo_world = None"
    and h3: "put_fault demo_world ''appInfo'' (JStr ''appInfo'') = None"
    and h4: "clear_fault demo_world = None"
    and h5: "\<forall>k. put_fault demo_world ''workflows'' k = None"
    by (simp_all add: new_DBManager_def demo_world_def)
  have h6: "outcome (fetchWithRetry (fetch demo_world) ''./data/workflows.json'' 3)
              = Inr (Some \<lparr>status = 200, body = Json (JArr ?es)\<rparr>)"
    by (simp add: demo_world_def demo_fetch_def fetchWithRetry_def fetchWithRetry_from.simps ok_def)
  have h7: "ok \<lparr>status = 200, body = Json (JArr ?es)\<rparr>" by (simp add: ok_def)
  have h8: "body \<lparr>status = 200, body = Json (JArr ?es)\<rparr> = Json (JArr ?es)" by simp
  have k0: "workflowId_of 0 ?e0 = Some ''w1''" and k1: "workflowId_of 1 ?e1 = Some ''w2''"
    and k2: "workflowId_of 2 ?e2 = Some ''w3''"
    by (simp_all add: workflowId_of_def js_or_def)
  have h9: "\<forall>i<length ?es. \<not> nullish (?es ! i) \<and> workflowId_of i (?es ! i) \<noteq> None"
  proof (intro allI impI)
    fix i :: nat assume "i < length ?es"
    then have "i = 0 \<or> i = 1 \<or> i = 2" by auto
    then show "\<not> nullish (?es ! i) \<and> workflowId_of i (?es ! i) \<noteq> None"
      using k0 k1 k2 by (auto simp: nullish_def)
  qed
  from array_workflows_stored [OF h1 h2 h3 h4 h5 h6 h7 h8 h9]
  obtain S where S: "map_option workflows (db (manager (importData demo_world new_DBManager))) = Some S"
    and c: "\<forall>i<length ?es. is_workflow (?es ! i) \<longrightarrow>
              (\<exists>key. workflowId_of i (?es ! i) = Some key \<and>
                 (key \<noteq> ''__proto__'' \<longrightarrow>
                    (\<exists>j. i \<le> j \<and> j < length ?es \<and> is_workflow (?es ! j) \<and>
                         workflowId_of j (?es ! j) = Some key \<and>
                         map_of S (JStr key) = Some (workflow_record key (?es ! j)))))"
    by blast
  have w1: "is_workflow (?es ! 1)" by (simp add: is_workflow_def)
  from c[rule_format, of 1] w1 k1 obtain j where
    j: "1 \<le> j" "j < length ?es" "is_workflow (?es ! j)"
    and m: "map_of S (JStr ''w2'') = Some (workflow_record ''w2'' (?es ! j))"
    by auto
  from j(1,2) have "j = 1 \<or> j = 2" by auto
  moreover have "\<not> is_workflow (?es ! 2)" by (simp add: is_workflow_def)
  ultimately have "j = 1" using j(3) by auto
  with m S show ?thesis by auto
qed

end
